theory Spec2Isabelle
  imports Complex_Main
begin

section \<open>JavaScript values and the host environment\<close>

text \<open>
  The generator works on the result of \<^verbatim>\<open>JSON.parse\<close>. A value is one of the JSON
  shapes; \<open>JUndefined\<close> stands for JavaScript's \<^verbatim>\<open>undefined\<close>, which the classifier's
  last \<^verbatim>\<open>return null\<close> is written for. A string is its list of code units (only units
  below 256 are representable), so \<open>length\<close> is the source's \<^verbatim>\<open>value.length\<close>. The list
  of a \<open>JObj\<close> is what \<^verbatim>\<open>Object.entries\<close> yields for the object, in that order.
\<close>

datatype json =
    JUndefined
  | JNull
  | JBool bool
  | JNum rat
  | JStr string
  | JArr "json list"
  | JObj "(string \<times> json) list"

text \<open>The exceptions the modelled statements can throw.\<close>

datatype js_error = TypeError | RangeError

text \<open>
  What the sources under \<^verbatim>\<open>src/\<close> use without defining it is a parameter of the model:
  \<^item> \<open>toCamelCase\<close> and \<open>isInt\<close>, imported from \<^verbatim>\<open>./utilities\<close>;
  \<^item> \<open>dateIsValid s\<close>, the value of \<^verbatim>\<open>!isNaN(new Date(s).getTime())\<close>, which the language
    standard leaves to the implementation for most strings;
  \<^item> \<open>arrayInherits k\<close> and \<open>objectInherits k\<close>: whether a fresh array (a fresh object
    literal) finds a property named \<open>k\<close> on its prototype chain (\<^verbatim>\<open>push\<close>, \<^verbatim>\<open>map\<close>,
    \<^verbatim>\<open>constructor\<close>, \<^verbatim>\<open>toString\<close>, ...). Every such property is a function, hence
    truthy, and has no property \<^verbatim>\<open>type\<close> or \<^verbatim>\<open>examples\<close>.
\<close>

record host =
  toCamelCase :: "string \<Rightarrow> string"
  isInt :: "rat \<Rightarrow> bool"
  dateIsValid :: "string \<Rightarrow> bool"
  arrayInherits :: "string \<Rightarrow> bool"
  objectInherits :: "string \<Rightarrow> bool"

datatype js_type = TUndefined | TObject | TBoolean | TNumber | TString

fun typeof :: "json \<Rightarrow> js_type" where
  "typeof JUndefined = TUndefined"
| "typeof JNull = TObject"
| "typeof (JBool b) = TBoolean"
| "typeof (JNum n) = TNumber"
| "typeof (JStr s) = TString"
| "typeof (JArr xs) = TObject"
| "typeof (JObj kvs) = TObject"

text \<open>Truthiness, as \<^verbatim>\<open>&&\<close>, \<^verbatim>\<open>||\<close> and \<^verbatim>\<open>!\<close> read a value.\<close>

fun truthy :: "json \<Rightarrow> bool" where
  "truthy JUndefined = False"
| "truthy JNull = False"
| "truthy (JBool b) = b"
| "truthy (JNum n) = (n \<noteq> 0)"
| "truthy (JStr s) = (s \<noteq> [])"
| "truthy (JArr xs) = True"
| "truthy (JObj kvs) = True"

subsection \<open>Decimal digits, \<^verbatim>\<open>parseInt\<close> and property names\<close>

definition isDigit :: "char \<Rightarrow> bool" where
  "isDigit c = (c \<in> set ''0123456789'')"

definition digitValue :: "char \<Rightarrow> nat" where
  "digitValue c = of_char c - 48"

definition digitsValue :: "string \<Rightarrow> nat" where
  "digitsValue ds = foldl (\<lambda>acc c. 10 * acc + digitValue c) 0 ds"

definition isWhiteSpace :: "char \<Rightarrow> bool" where
  "isWhiteSpace c = (c \<in> set [CHR 0x09, CHR 0x0A, CHR 0x0B, CHR 0x0C, CHR 0x0D, CHR 0x20, CHR 0xA0])"

text \<open>
  \<^verbatim>\<open>parseInt(value, 10)\<close>: leading white space is skipped, one sign is read, then the
  longest run of decimal digits; \<open>None\<close> is \<^verbatim>\<open>NaN\<close>, the result when that run is empty.
  Whatever follows the digits is ignored. (The source only asks whether the result is
  \<^verbatim>\<open>NaN\<close>, so the rounding of long digit runs to a double is left out.)
\<close>

definition parseInt :: "string \<Rightarrow> int option" where
  "parseInt s =
     (let t = dropWhile isWhiteSpace s;
          neg = (t \<noteq> [] \<and> hd t = CHR ''-'');
          r = (if t \<noteq> [] \<and> (hd t = CHR ''-'' \<or> hd t = CHR ''+'') then tl t else t);
          ds = takeWhile isDigit r
      in if ds = [] then None
         else Some (if neg then - int (digitsValue ds) else int (digitsValue ds)))"

fun showNat :: "nat \<Rightarrow> string" where
  "showNat n =
     (if n < 10 then [''0123456789'' ! n]
      else showNat (n div 10) @ [''0123456789'' ! (n mod 10)])"

text \<open>
  An array index is a canonical numeric string below \<open>2^32 - 1\<close>. Own properties with
  such names are enumerated first, in ascending numeric order, the others after them in
  the order of their creation.
\<close>

definition isArrayIndex :: "string \<Rightarrow> bool" where
  "isArrayIndex k =
     (k \<noteq> [] \<and> list_all isDigit k \<and> (k = ''0'' \<or> hd k \<noteq> CHR ''0'') \<and>
      digitsValue k < 4294967295)"

definition ownEntries :: "(string \<times> 'a) list \<Rightarrow> (string \<times> 'a) list" where
  "ownEntries ps =
     sort_key (\<lambda>p. digitsValue (fst p)) (filter (\<lambda>p. isArrayIndex (fst p)) ps) @
     filter (\<lambda>p. \<not> isArrayIndex (fst p)) ps"

text \<open>\<^verbatim>\<open>Object.entries(example)\<close>, for whatever value stands where a record should.\<close>

fun entriesOf :: "json \<Rightarrow> js_error + (string \<times> json) list" where
  "entriesOf JUndefined = Inl TypeError"
| "entriesOf JNull = Inl TypeError"
| "entriesOf (JBool b) = Inr []"
| "entriesOf (JNum n) = Inr []"
| "entriesOf (JStr s) = Inr (zip (map showNat [0..<length s]) (map (\<lambda>c. JStr [c]) s))"
| "entriesOf (JArr xs) = Inr (zip (map showNat [0..<length xs]) xs)"
| "entriesOf (JObj kvs) = Inr kvs"

section \<open>The classifier: \<^verbatim>\<open>inferDataType\<close>\<close>

text \<open>
  \<^verbatim>\<open>const specialTypes = ["DataTypes.STRING(\"MAX\")"];\<close> The element is spelled with
  double quotes around \<^verbatim>\<open>MAX\<close>.
\<close>

definition specialTypes :: "string list" where
  "specialTypes = [''DataTypes.STRING(\"MAX\")'']"

record associatedModel =
  name :: string
  relation :: string
  examples :: "json list"

text \<open>
  \<^verbatim>\<open>associatedModels\<close> is created as an array (\<^verbatim>\<open>[]\<close>) and used as a dictionary. The
  model keeps its own properties other than \<^verbatim>\<open>length\<close>, in creation order.
\<close>

type_synonym associatedModels = "(string \<times> associatedModel) list"

definition arrayLength :: "associatedModels \<Rightarrow> nat" where
  "arrayLength am =
     fold max (map (\<lambda>p. Suc (digitsValue (fst p))) (filter (\<lambda>p. isArrayIndex (fst p)) am)) 0"

text \<open>Whether \<^verbatim>\<open>associatedModels[k]\<close> is truthy.\<close>

definition hasModel :: "host \<Rightarrow> associatedModels \<Rightarrow> string \<Rightarrow> bool" where
  "hasModel u am k =
     (if k = ''length'' then arrayLength am \<noteq> 0
      else map_of am k \<noteq> None \<or> k = ''__proto__'' \<or> arrayInherits u k)"

text \<open>
  \<^verbatim>\<open>if (!associatedModels[k]) { associatedModels[k] = { name: k, relation: rel, examples: [] }; }\<close>
  Storing an object under \<^verbatim>\<open>length\<close> of an array throws a \<^verbatim>\<open>RangeError\<close>.
\<close>

definition ensureModel :: "host \<Rightarrow> string \<Rightarrow> string \<Rightarrow> associatedModels \<Rightarrow> js_error + associatedModels" where
  "ensureModel u rel k am =
     (if hasModel u am k then Inr am
      else if k = ''length'' then Inl RangeError
      else Inr (am @ [(k, \<lparr>name = k, relation = rel, examples = []\<rparr>)]))"

text \<open>
  \<^verbatim>\<open>associatedModels[k].examples.push(...vs)\<close>. When the property read is not one of the
  stored models (the array's length, an inherited method), it has no \<^verbatim>\<open>examples\<close> and
  the call throws a \<^verbatim>\<open>TypeError\<close>.
\<close>

definition pushExamples :: "string \<Rightarrow> json list \<Rightarrow> associatedModels \<Rightarrow> js_error + associatedModels" where
  "pushExamples k vs am =
     (if k \<noteq> ''length'' \<and> map_of am k \<noteq> None
      then Inr (map (\<lambda>p. if fst p = k then (fst p, (snd p)\<lparr>examples := examples (snd p) @ vs\<rparr>) else p) am)
      else Inl TypeError)"

text \<open>
  The classifier returns the type tag (\<open>None\<close> for \<^verbatim>\<open>null\<close>) and the accumulator as it
  has changed it.
\<close>

fun inferDataType :: "host \<Rightarrow> json \<Rightarrow> string \<Rightarrow> associatedModels \<Rightarrow> js_error + (string option \<times> associatedModels)" where
  "inferDataType u JNull key am = Inr (None, am)"
| "inferDataType u (JBool b) key am = Inr (Some ''DataTypes.BOOLEAN'', am)"
| "inferDataType u (JNum n) key am =
     (if isInt u n then Inr (Some ''DataTypes.INTEGER'', am)
      else Inr (Some ''DataTypes.FLOAT'', am))"
| "inferDataType u (JStr s) key am =
     (if dateIsValid u s \<and> parseInt s = None then Inr (Some ''DataTypes.DATE'', am)
      else if length s > 140 then Inr (Some ''DataTypes.STRING('MAX')'', am)
      else Inr (Some ''DataTypes.STRING'', am))"
| "inferDataType u (JArr xs) key am =
     (if xs \<noteq> [] \<and> truthy (hd xs) \<and> typeof (hd xs) \<noteq> TObject
      then Inr (Some ''DataTypes.STRING('MAX')'', am)
      else (case ensureModel u ''1:n'' (toCamelCase u key) am of
              Inl e \<Rightarrow> Inl e
            | Inr am1 \<Rightarrow>
                (case pushExamples (toCamelCase u key) xs am1 of
                   Inl e \<Rightarrow> Inl e
                 | Inr am2 \<Rightarrow> Inr (Some ''DataTypes.NESTED'', am2))))"
| "inferDataType u (JObj kvs) key am =
     (case ensureModel u ''1:1'' (toCamelCase u key) am of
        Inl e \<Rightarrow> Inl e
      | Inr am1 \<Rightarrow>
          (case pushExamples (toCamelCase u key) [JObj kvs] am1 of
             Inl e \<Rightarrow> Inl e
           | Inr am2 \<Rightarrow> Inr (Some ''DataTypes.NESTED'', am2)))"
| "inferDataType u JUndefined key am = Inr (None, am)"

section \<open>The field map and the decomposition job: \<^verbatim>\<open>generateSequelizeModel\<close>\<close>

record bodyEntry =
  type' :: "string option"
  field :: string

text \<open>
  \<^verbatim>\<open>body\<close> is an object literal. \<open>props\<close> are its own properties in creation order. A
  store under the key \<^verbatim>\<open>__proto__\<close> creates no own property: it replaces the object's
  prototype, kept in \<open>proto\<close>. The type of an entry is \<open>None\<close> where the source stores
  \<^verbatim>\<open>undefined\<close>.
\<close>

record body =
  proto :: "bodyEntry option"
  props :: "(string \<times> bodyEntry) list"

definition emptyBody :: body where
  "emptyBody = \<lparr>proto = None, props = []\<rparr>"

text \<open>
  Reading \<^verbatim>\<open>body[k]\<close>: \<open>None\<close> when the value is falsy, \<open>Some t\<close> when it is truthy and
  its property \<^verbatim>\<open>type\<close> is \<open>t\<close>. An own property is a stored entry. Otherwise the
  prototype chain answers: a replaced prototype with its two properties \<^verbatim>\<open>type\<close> and
  \<^verbatim>\<open>field\<close> (strings, truthy unless empty, with no \<^verbatim>\<open>type\<close> of their own), then
  \<^verbatim>\<open>Object.prototype\<close>.
\<close>

definition bodyGet :: "host \<Rightarrow> body \<Rightarrow> string \<Rightarrow> string option option" where
  "bodyGet u b k =
     (case map_of (props b) k of
        Some e \<Rightarrow> Some (type' e)
      | None \<Rightarrow>
          (case proto b of
             None \<Rightarrow> if k = ''__proto__'' \<or> objectInherits u k then Some None else None
           | Some p \<Rightarrow>
               if k = ''__proto__'' then Some (type' p)
               else if k = ''type'' then
                 (case type' p of None \<Rightarrow> None | Some t \<Rightarrow> if t = [] then None else Some None)
               else if k = ''field'' then (if field p = [] then None else Some None)
               else if objectInherits u k then Some None
               else None))"

definition upsert :: "string \<Rightarrow> 'a \<Rightarrow> (string \<times> 'a) list \<Rightarrow> (string \<times> 'a) list" where
  "upsert k e ps =
     (if map_of ps k = None then ps @ [(k, e)]
      else map (\<lambda>p. if fst p = k then (k, e) else p) ps)"

definition bodySet :: "body \<Rightarrow> string \<Rightarrow> bodyEntry \<Rightarrow> body" where
  "bodySet b k e =
     (if k = ''__proto__'' then b\<lparr>proto := Some e\<rparr> else b\<lparr>props := upsert k e (props b)\<rparr>)"

text \<open>
  The type stored for a field:
  \<^verbatim>\<open>inferredType || (body[camelCasedKey] ? body[camelCasedKey].type : "???")\<close>.
\<close>

definition mergedType :: "host \<Rightarrow> body \<Rightarrow> string \<Rightarrow> string option \<Rightarrow> string option" where
  "mergedType u b k inferredType =
     (case inferredType of
        Some t \<Rightarrow> Some t
      | None \<Rightarrow> (case bodyGet u b k of Some t \<Rightarrow> t | None \<Rightarrow> Some ''???''))"

text \<open>
  The body of the inner \<^verbatim>\<open>forEach\<close>, for one \<^verbatim>\<open>[key, value]\<close> of one example: the guard
  on the special types, the classification, the store into \<^verbatim>\<open>body\<close>.
\<close>

definition visitEntry :: "host \<Rightarrow> body \<times> associatedModels \<Rightarrow> string \<times> json \<Rightarrow> js_error + body \<times> associatedModels" where
  "visitEntry u st kv =
     (let b = fst st; am = snd st; key = fst kv; camelCasedKey = toCamelCase u key in
      if (case bodyGet u b camelCasedKey of Some (Some t) \<Rightarrow> t \<in> set specialTypes | _ \<Rightarrow> False)
      then Inr (b, am)
      else
        (case inferDataType u (snd kv) key am of
           Inl e \<Rightarrow> Inl e
         | Inr r \<Rightarrow>
             Inr (bodySet b camelCasedKey
                    \<lparr>type' = mergedType u b camelCasedKey (fst r), field = key\<rparr>,
                  snd r)))"

fun visitEntries :: "host \<Rightarrow> body \<times> associatedModels \<Rightarrow> (string \<times> json) list \<Rightarrow> js_error + body \<times> associatedModels" where
  "visitEntries u st [] = Inr st"
| "visitEntries u st (kv # kvs) =
     (case visitEntry u st kv of Inl e \<Rightarrow> Inl e | Inr st' \<Rightarrow> visitEntries u st' kvs)"

fun visitExamples :: "host \<Rightarrow> body \<times> associatedModels \<Rightarrow> json list \<Rightarrow> js_error + body \<times> associatedModels" where
  "visitExamples u st [] = Inr st"
| "visitExamples u st (ex # exs) =
     (case entriesOf ex of
        Inl e \<Rightarrow> Inl e
      | Inr kvs \<Rightarrow>
          (case visitEntries u st kvs of Inl e \<Rightarrow> Inl e | Inr st' \<Rightarrow> visitExamples u st' exs))"

text \<open>
  The second loop deletes every own property whose type is \<^verbatim>\<open>"DataTypes.NESTED"\<close>; what
  is left is printed into the model file, own properties in enumeration order.
\<close>

definition finalBody :: "body \<Rightarrow> (string \<times> bodyEntry) list" where
  "finalBody b = ownEntries (filter (\<lambda>p. type' (snd p) \<noteq> Some ''DataTypes.NESTED'') (props b))"

text \<open>
  One element of the returned array:
  \<^verbatim>\<open>{ model, associations: { "1:n": [...], "1:1": [...] } }\<close>.
\<close>

record modelInfo =
  model :: string
  assoc_1n :: "associatedModel list"
  assoc_11 :: "associatedModel list"

fun collect :: "('e + 'a) list \<Rightarrow> 'e + 'a list" where
  "collect [] = Inr []"
| "collect (Inl e # rs) = Inl e"
| "collect (Inr x # rs) = (case collect rs of Inl e \<Rightarrow> Inl e | Inr xs \<Rightarrow> Inr (x # xs))"

subsection \<open>The measure of the recursion\<close>

fun jsize :: "json \<Rightarrow> nat" where
  "jsize (JArr xs) = Suc (sum_list (map jsize xs))"
| "jsize (JObj kvs) = Suc (sum_list (map (\<lambda>(k, v). jsize v) kvs))"
| "jsize v = Suc 0"

definition batchSize :: "json list \<Rightarrow> nat" where
  "batchSize exs = sum_list (map jsize exs)"

definition heldSize :: "associatedModels \<Rightarrow> nat" where
  "heldSize am = sum_list (map (\<lambda>p. batchSize (examples (snd p))) am)"

definition pushWeight :: "json \<Rightarrow> nat" where
  "pushWeight v = (case v of JArr xs \<Rightarrow> batchSize xs | JObj kvs \<Rightarrow> jsize v | _ \<Rightarrow> 0)"

text \<open>
  Every example a job stores for a child was taken out of one of the job's own examples:
  the stored examples of all children together are smaller than the batch.
\<close>

lemma set_ownEntries: "set (ownEntries ps) = set ps"
  by (auto simp: ownEntries_def)

lemma ensureModel_keys:
  assumes "ensureModel u rel k am = Inr am1" and "distinct (map fst am)"
  shows "distinct (map fst am1)"
  using assms
  by (auto simp: ensureModel_def hasModel_def map_of_eq_None_iff split: if_splits)

lemma ensureModel_held:
  "ensureModel u rel k am = Inr am1 \<Longrightarrow> heldSize am1 = heldSize am"
  by (auto simp: ensureModel_def heldSize_def batchSize_def split: if_splits)

lemma pushExamples_keys:
  "pushExamples k vs am = Inr am2 \<Longrightarrow> map fst am2 = map fst am"
  by (auto simp: pushExamples_def split: if_splits)

lemma held_update:
  "distinct (map fst am) \<Longrightarrow> map_of am k \<noteq> None \<Longrightarrow>
   heldSize (map (\<lambda>p. if fst p = k then (fst p, (snd p)\<lparr>examples := examples (snd p) @ vs\<rparr>) else p) am)
     = heldSize am + batchSize vs"
proof (induction am)
  case Nil
  then show ?case by simp
next
  case (Cons a am)
  show ?case
  proof (cases "fst a = k")
    case True
    with Cons.prems have "k \<notin> fst ` set am" by auto
    then have "map (\<lambda>p. if fst p = k then (fst p, (snd p)\<lparr>examples := examples (snd p) @ vs\<rparr>) else p) am = am"
      by (induction am) auto
    with True show ?thesis by (simp add: heldSize_def batchSize_def)
  next
    case False
    with Cons.prems have "map_of am k \<noteq> None" by (cases a) auto
    with Cons False show ?thesis by (simp add: heldSize_def)
  qed
qed

lemma pushExamples_held:
  "pushExamples k vs am = Inr am2 \<Longrightarrow> distinct (map fst am) \<Longrightarrow>
   heldSize am2 = heldSize am + batchSize vs"
  by (auto simp: pushExamples_def held_update split: if_splits)

lemma inferDataType_held:
  assumes "inferDataType u v key am = Inr r" and "distinct (map fst am)"
  shows "distinct (map fst (snd r)) \<and> heldSize (snd r) \<le> heldSize am + pushWeight v"
proof (cases v)
  case (JArr xs)
  show ?thesis
  proof (cases "xs \<noteq> [] \<and> truthy (hd xs) \<and> typeof (hd xs) \<noteq> TObject")
    case True
    with assms JArr show ?thesis by auto
  next
    case False
    with assms JArr obtain am1 am2 where
      1: "ensureModel u ''1:n'' (toCamelCase u key) am = Inr am1" and
      2: "pushExamples (toCamelCase u key) xs am1 = Inr am2" and r: "snd r = am2"
      by (auto split: sum.splits)
    from 1 assms(2) have d1: "distinct (map fst am1)" by (rule ensureModel_keys)
    with 1 2 r JArr show ?thesis
      by (simp add: pushExamples_keys pushExamples_held ensureModel_held pushWeight_def)
  qed
next
  case (JObj kvs)
  with assms obtain am1 am2 where
      1: "ensureModel u ''1:1'' (toCamelCase u key) am = Inr am1" and
      2: "pushExamples (toCamelCase u key) [JObj kvs] am1 = Inr am2" and r: "snd r = am2"
      by (auto split: sum.splits)
  from 1 assms(2) have d1: "distinct (map fst am1)" by (rule ensureModel_keys)
  with 1 2 r JObj show ?thesis
    by (simp add: pushExamples_keys pushExamples_held ensureModel_held pushWeight_def batchSize_def)
qed (use assms in \<open>auto split: if_splits\<close>)

lemma visitEntry_held:
  assumes "visitEntry u (b, am) kv = Inr (b', am')" and "distinct (map fst am)"
  shows "distinct (map fst am') \<and> heldSize am' \<le> heldSize am + pushWeight (snd kv)"
  using assms inferDataType_held[of u "snd kv" "fst kv" am]
  by (auto simp: visitEntry_def Let_def split: if_splits sum.splits)

lemma visitEntries_held:
  "visitEntries u (b, am) kvs = Inr (b', am') \<Longrightarrow> distinct (map fst am) \<Longrightarrow>
   distinct (map fst am') \<and> heldSize am' \<le> heldSize am + sum_list (map (\<lambda>kv. pushWeight (snd kv)) kvs)"
proof (induction kvs arbitrary: b am)
  case Nil
  then show ?case by simp
next
  case (Cons kv kvs)
  from Cons.prems(1) obtain b1 am1 where
    1: "visitEntry u (b, am) kv = Inr (b1, am1)" and 2: "visitEntries u (b1, am1) kvs = Inr (b', am')"
    by (auto split: sum.splits)
  from visitEntry_held[OF 1 Cons.prems(2)] Cons.IH[OF 2] show ?case by auto
qed

lemma pushWeight_le_jsize: "pushWeight v \<le> jsize v"
  by (cases v) (auto simp: pushWeight_def batchSize_def)

lemma sum_pushWeight_snd:
  "sum_list (map (\<lambda>kv. pushWeight (snd kv)) kvs) \<le> sum_list (map jsize (map snd kvs))"
  by (induction kvs) (auto simp: pushWeight_le_jsize add_mono)

lemma sum_jsize_snd: "sum_list (map (\<lambda>(k, v). jsize v) kvs) = sum_list (map jsize (map snd kvs))"
  by (induction kvs) auto

lemma entriesOf_weight:
  assumes "entriesOf ex = Inr kvs"
  shows "Suc (sum_list (map (\<lambda>kv. pushWeight (snd kv)) kvs)) \<le> jsize ex"
proof (cases ex)
  case (JStr s)
  with assms have "\<forall>kv \<in> set kvs. pushWeight (snd kv) = 0"
    by (auto simp: pushWeight_def dest!: set_zip_rightD)
  then have "sum_list (map (\<lambda>kv. pushWeight (snd kv)) kvs) = 0"
    by (induction kvs) auto
  with JStr show ?thesis by simp
next
  case (JArr xs)
  with assms have "map snd kvs = xs" by auto
  with sum_pushWeight_snd[of kvs] JArr show ?thesis by simp
next
  case (JObj ps)
  with assms sum_pushWeight_snd[of kvs] show ?thesis by (simp add: sum_jsize_snd)
qed (use assms in auto)

lemma visitExamples_held:
  "visitExamples u (b, am) exs = Inr (b', am') \<Longrightarrow> distinct (map fst am) \<Longrightarrow>
   distinct (map fst am') \<and> heldSize am' + length exs \<le> heldSize am + batchSize exs"
proof (induction exs arbitrary: b am)
  case Nil
  then show ?case by simp
next
  case (Cons ex exs)
  from Cons.prems(1) obtain kvs b1 am1 where
    0: "entriesOf ex = Inr kvs" and
    1: "visitEntries u (b, am) kvs = Inr (b1, am1)" and
    2: "visitExamples u (b1, am1) exs = Inr (b', am')"
    by (auto split: sum.splits)
  from visitEntries_held[OF 1 Cons.prems(2)] Cons.IH[OF 2] entriesOf_weight[OF 0]
  show ?case by (auto simp: batchSize_def)
qed

lemma held_member: "(k, m) \<in> set am \<Longrightarrow> batchSize (examples m) \<le> heldSize am"
  by (induction am) (auto simp: heldSize_def)

lemma child_smaller:
  assumes "visitExamples u (emptyBody, []) exs = Inr (b, am)" and "(k, m) \<in> set (ownEntries am)"
  shows "batchSize (examples m) < batchSize exs"
proof -
  from visitExamples_held[OF assms(1)] have le: "heldSize am + length exs \<le> batchSize exs"
    by (simp add: heldSize_def)
  from assms(2) have mem: "(k, m) \<in> set am" by (simp add: set_ownEntries)
  have "exs \<noteq> []" using assms(1) mem by (cases exs) auto
  with le held_member[OF mem] show ?thesis by (cases exs) auto
qed

text \<open>
  \<^verbatim>\<open>generateSequelizeModel(modelName, examples)\<close>. The result is the list of model files
  written (name and printed field map, in the order of the writes) and the returned
  array. The calls into the file system are not modelled beyond that list; an exception
  ends the whole run, as nothing catches it.
\<close>

function generateSequelizeModel :: "host \<Rightarrow> string \<Rightarrow> json list \<Rightarrow> js_error + ((string \<times> (string \<times> bodyEntry) list) list \<times> modelInfo list)" where
  "generateSequelizeModel u modelName exs =
     (case visitExamples u (emptyBody, []) exs of
        Inl e \<Rightarrow> Inl e
      | Inr st \<Rightarrow>
          (case collect (map (\<lambda>p. generateSequelizeModel u (toCamelCase u (fst p)) (examples (snd p)))
                             (ownEntries (snd st))) of
             Inl e \<Rightarrow> Inl e
           | Inr otherModels \<Rightarrow>
               Inr ((modelName, finalBody (fst st)) # concat (map fst otherModels),
                    \<lparr>model = toCamelCase u modelName,
                     assoc_1n = filter (\<lambda>m. relation m = ''1:n'') (map snd (ownEntries (snd st))),
                     assoc_11 = filter (\<lambda>m. relation m = ''1:1'') (map snd (ownEntries (snd st)))\<rparr>
                    # concat (map snd otherModels))))"
  by pat_completeness auto
termination
proof (relation "measure (\<lambda>(u, modelName, exs). batchSize exs)")
  show "wf (measure (\<lambda>(u, modelName, exs). batchSize exs))" by simp
next
  fix u :: host and modelName :: string and exs st p
  assume "visitExamples u (emptyBody, []) exs = Inr st" and "p \<in> set (ownEntries (snd st))"
  then show "((u, toCamelCase u (fst p), examples (snd p)), (u, modelName, exs))
      \<in> measure (\<lambda>(u, modelName, exs). batchSize exs)"
    using child_smaller[of u exs "fst st" "snd st" "fst p" "snd p"] by simp
qed

subsection \<open>The depth of the recursion\<close>

text \<open>
  The nesting depth of a value counts the arrays and objects around its innermost value;
  a scalar has depth 0. The nesting depth of a batch is that of its deepest record.
\<close>

fun maxList :: "nat list \<Rightarrow> nat" where
  "maxList [] = 0"
| "maxList (x # xs) = max x (maxList xs)"

fun nesting :: "json \<Rightarrow> nat" where
  "nesting (JArr xs) = Suc (maxList (map nesting xs))"
| "nesting (JObj kvs) = Suc (maxList (map (\<lambda>(k, v). nesting v) kvs))"
| "nesting v = 0"

definition batchNesting :: "json list \<Rightarrow> nat" where
  "batchNesting exs = maxList (map nesting exs)"

text \<open>
  The depth of the call stack of \<^verbatim>\<open>generateSequelizeModel\<close>: one for the call itself, plus
  the deepest of the calls it makes for its children. The loop over the children stops
  at the first child whose job throws, so the children after it are not called.
\<close>

definition visited :: "('a \<Rightarrow> bool) \<Rightarrow> 'a list \<Rightarrow> 'a list" where
  "visited ok cs = (case dropWhile ok cs of [] \<Rightarrow> cs | c # rest \<Rightarrow> takeWhile ok cs @ [c])"

lemma set_visited: "set (visited ok cs) \<subseteq> set cs"
proof (cases "dropWhile ok cs")
  case Nil
  show ?thesis unfolding visited_def Nil by simp
next
  case (Cons c rest)
  have "c \<in> set (dropWhile ok cs)" unfolding Cons by simp
  then have "c \<in> set cs" by (rule set_dropWhileD)
  moreover have "set (takeWhile ok cs) \<subseteq> set cs" by (auto dest: set_takeWhileD)
  ultimately show ?thesis unfolding visited_def Cons by simp
qed

function callDepth :: "host \<Rightarrow> string \<Rightarrow> json list \<Rightarrow> nat" where
  "callDepth u modelName exs =
     (case visitExamples u (emptyBody, []) exs of
        Inl e \<Rightarrow> 1
      | Inr st \<Rightarrow>
          Suc (maxList
                (map (\<lambda>p. callDepth u (toCamelCase u (fst p)) (examples (snd p)))
                     (visited (\<lambda>p. \<not> isl (generateSequelizeModel u (toCamelCase u (fst p)) (examples (snd p))))
                        (ownEntries (snd st))))))"
  by pat_completeness auto
termination
proof (relation "measure (\<lambda>(u, modelName, exs). batchSize exs)")
  show "wf (measure (\<lambda>(u, modelName, exs). batchSize exs))" by simp
next
  fix u :: host and modelName :: string and exs st p
  assume st: "visitExamples u (emptyBody, []) exs = Inr st"
    and v: "p \<in> set (visited (\<lambda>p. \<not> isl (generateSequelizeModel u (toCamelCase u (fst p)) (examples (snd p))))
                        (ownEntries (snd st)))"
  from set_visited[THEN subsetD, OF v] have "p \<in> set (ownEntries (snd st))" .
  with st show "((u, toCamelCase u (fst p), examples (snd p)), (u, modelName, exs))
      \<in> measure (\<lambda>(u, modelName, exs). batchSize exs)"
    using child_smaller[of u exs "fst st" "snd st" "fst p" "snd p"] by simp
qed

section \<open>The driver: assembling the associations of all inputs\<close>

text \<open>
  \<^verbatim>\<open>createModel(name, path)\<close>, from the point where the file has been read and parsed:
  two lines on the console, then the decomposition. The lines are the first component.
\<close>

definition createModel :: "host \<Rightarrow> string \<Rightarrow> json list \<Rightarrow>
    string list \<times> (js_error + (string \<times> (string \<times> bodyEntry) list) list \<times> modelInfo list)" where
  "createModel u modelName exs =
     ([[CHR 0x0A] @ ''Found '' @ showNat (length exs) @ '' examples for model: '' @ modelName,
       ''Generating model: '' @ modelName],
      generateSequelizeModel u modelName exs)"

text \<open>
  \<^verbatim>\<open>associations[k] = v\<close> on an object literal, as far as its own properties go (a store
  under \<^verbatim>\<open>__proto__\<close> creates none).
\<close>

definition assign :: "string \<Rightarrow> 'a \<Rightarrow> (string \<times> 'a) list \<Rightarrow> (string \<times> 'a) list" where
  "assign k v ps = (if k = ''__proto__'' then ps else upsert k v ps)"

text \<open>
  The top level of the script for the list of its inputs, the main model first: each
  input's first descriptor is stored under the input's name, every further descriptor
  under its own \<^verbatim>\<open>model\<close>. The state is the console so far and the \<^verbatim>\<open>associations\<close>
  object; an exception leaves the console as it is and ends the script.
\<close>

fun assemble :: "host \<Rightarrow> (string \<times> json list) list \<Rightarrow> string list \<times> (string \<times> modelInfo) list \<Rightarrow>
    string list \<times> (js_error + (string \<times> modelInfo) list)" where
  "assemble u [] st = (fst st, Inr (snd st))"
| "assemble u (input # inputs) st =
     (case createModel u (fst input) (snd input) of
        (lines, Inl e) \<Rightarrow> (fst st @ lines, Inl e)
      | (lines, Inr out) \<Rightarrow>
          assemble u inputs
            (fst st @ lines,
             fold (\<lambda>m. assign (model m) m) (tl (snd out))
               (assign (fst input) (hd (snd out)) (snd st))))"

text \<open>The stores into \<^verbatim>\<open>associations\<close> that the inputs cause, in their order.\<close>

definition assignments :: "host \<Rightarrow> (string \<times> json list) list \<Rightarrow> (string \<times> modelInfo) list" where
  "assignments u inputs =
     concat (map (\<lambda>input.
        (case generateSequelizeModel u (fst input) (snd input) of
           Inl e \<Rightarrow> []
         | Inr out \<Rightarrow> (fst input, hd (snd out)) # map (\<lambda>m. (model m, m)) (tl (snd out)))) inputs)"

section \<open>A concrete host\<close>

text \<open>
  The theorems below hold for every host. Where a run is evaluated on a concrete input,
  it is evaluated in this one: the key \<^verbatim>\<open>first_name\<close> becomes \<^verbatim>\<open>firstName\<close>, every
  other key it is asked about is a camel-cased word already and stays as it is; a number
  is an integer when it equals its floor; two date strings are read, one in the ISO
  format and one in the format of \<^verbatim>\<open>toUTCString\<close>; a few of the inherited method names
  are listed.
\<close>

definition sampleHost :: host where
  "sampleHost =
     \<lparr>toCamelCase = (\<lambda>k. if k = ''first_name'' then ''firstName'' else k),
      isInt = (\<lambda>q. of_int (floor q) = q),
      dateIsValid = (\<lambda>s. s \<in> set [''2020-01-01'', ''Wed, 01 Jan 2020 00:00:00 GMT'']),
      arrayInherits = (\<lambda>k. k \<in> set [''constructor'', ''toString'', ''push'', ''map'', ''filter'', ''keys'', ''values'']),
      objectInherits = (\<lambda>k. k \<in> set [''constructor'', ''toString'', ''valueOf'', ''hasOwnProperty''])\<rparr>"

definition longText :: string where "longText = replicate 141 (CHR ''x'')"

section \<open>Observations and reachable field maps\<close>

text \<open>
  The observations of a job, in the order the two nested loops visit them: the entries
  of the first example, then those of the second, and so on.
\<close>

fun allEntries :: "json list \<Rightarrow> js_error + (string \<times> json) list" where
  "allEntries [] = Inr []"
| "allEntries (ex # exs) =
     (case entriesOf ex of
        Inl e \<Rightarrow> Inl e
      | Inr kvs \<Rightarrow> (case allEntries exs of Inl e \<Rightarrow> Inl e | Inr rest \<Rightarrow> Inr (kvs @ rest)))"

text \<open>
  What holds of every field map a job builds from the empty one: no own property is
  named \<^verbatim>\<open>__proto__\<close>, and no stored type is one of the special types.
\<close>

definition unspecial :: "body \<Rightarrow> bool" where
  "unspecial b =
     (list_all (\<lambda>p. fst p \<noteq> ''__proto__'' \<and>
                    (case type' (snd p) of None \<Rightarrow> True | Some t \<Rightarrow> t \<notin> set specialTypes)) (props b) \<and>
      (case proto b of
         None \<Rightarrow> True
       | Some p \<Rightarrow> (case type' p of None \<Rightarrow> True | Some t \<Rightarrow> t \<notin> set specialTypes)))"

text \<open>
  The values for which the classifier reaches the code that registers an association (an
  object, or an array that is not collapsed to a string), and the relation that code
  writes into a model it creates.
\<close>

definition registers :: "json \<Rightarrow> bool" where
  "registers v =
     (case v of
        JObj kvs \<Rightarrow> True
      | JArr xs \<Rightarrow> \<not> (xs \<noteq> [] \<and> truthy (hd xs) \<and> typeof (hd xs) \<noteq> TObject)
      | _ \<Rightarrow> False)"

definition relationOf :: "json \<Rightarrow> string" where
  "relationOf v = (case v of JArr xs \<Rightarrow> ''1:n'' | _ \<Rightarrow> ''1:1'')"

text \<open>Every stored model is stored under its own name.\<close>

definition named :: "associatedModels \<Rightarrow> bool" where
  "named am = list_all (\<lambda>p. name (snd p) = fst p) am"

text \<open>
  The examples a job holds for its children, and the bound that keeps them shallower
  than the batch they were taken from.
\<close>

definition held :: "associatedModels \<Rightarrow> json set" where
  "held am = (\<Union>p \<in> set am. set (examples (snd p)))"

definition shallow :: "nat \<Rightarrow> associatedModels \<Rightarrow> bool" where
  "shallow d am = ((am = [] \<or> 2 \<le> d) \<and> (\<forall>e \<in> held am. Suc (nesting e) \<le> d))"

text \<open>
  A plain integer, as the specification words the guard of the date rule: the whole
  string is a run of decimal digits, after at most one sign.
\<close>

definition plainInteger :: "string \<Rightarrow> bool" where
  "plainInteger s =
     (let r = (if s \<noteq> [] \<and> (hd s = CHR ''-'' \<or> hd s = CHR ''+'') then tl s else s)
      in r \<noteq> [] \<and> list_all isDigit r)"

section \<open>Properties of the decomposition\<close>

subsection \<open>What a successful job returns\<close>

lemma collect_Inr: "collect rs = Inr xs \<Longrightarrow> rs = map Inr xs"
proof (induction rs arbitrary: xs)
  case Nil
  then show ?case by simp
next
  case (Cons r rs)
  then show ?case by (cases r) (auto split: sum.splits)
qed

lemma finalBody_set:
  "set (finalBody b) = {p \<in> set (props b). type' (snd p) \<noteq> Some ''DataTypes.NESTED''}"
  by (auto simp: finalBody_def set_ownEntries)

lemma generateSequelizeModel_Inr:
  assumes "generateSequelizeModel u modelName exs = Inr out"
  obtains st otherModels where
    "visitExamples u (emptyBody, []) exs = Inr st"
    "map (\<lambda>p. generateSequelizeModel u (toCamelCase u (fst p)) (examples (snd p))) (ownEntries (snd st))
       = map Inr otherModels"
    "fst out = (modelName, finalBody (fst st)) # concat (map fst otherModels)"
    "snd out =
       \<lparr>model = toCamelCase u modelName,
        assoc_1n = filter (\<lambda>m. relation m = ''1:n'') (map snd (ownEntries (snd st))),
        assoc_11 = filter (\<lambda>m. relation m = ''1:1'') (map snd (ownEntries (snd st)))\<rparr>
       # concat (map snd otherModels)"
proof -
  from assms obtain st where st: "visitExamples u (emptyBody, []) exs = Inr st"
    by (subst (asm) generateSequelizeModel.simps) (auto split: sum.splits)
  with assms obtain otherModels where
    c: "collect (map (\<lambda>p. generateSequelizeModel u (toCamelCase u (fst p)) (examples (snd p))) (ownEntries (snd st)))
        = Inr otherModels"
    by (subst (asm) generateSequelizeModel.simps) (auto split: sum.splits)
  from assms st c have
    "out = ((modelName, finalBody (fst st)) # concat (map fst otherModels),
       \<lparr>model = toCamelCase u modelName,
        assoc_1n = filter (\<lambda>m. relation m = ''1:n'') (map snd (ownEntries (snd st))),
        assoc_11 = filter (\<lambda>m. relation m = ''1:1'') (map snd (ownEntries (snd st)))\<rparr>
       # concat (map snd otherModels))"
    by (subst (asm) generateSequelizeModel.simps) simp
  with st collect_Inr[OF c] that show thesis by simp
qed

lemma no_nested_written:
  "generateSequelizeModel u modelName exs = Inr out \<Longrightarrow> file \<in> set (fst out) \<Longrightarrow>
   p \<in> set (snd file) \<Longrightarrow> type' (snd p) \<noteq> Some ''DataTypes.NESTED''"
proof (induction u modelName exs arbitrary: out rule: generateSequelizeModel.induct)
  case (1 u modelName exs)
  from "1.prems"(1) obtain st otherModels where
    st: "visitExamples u (emptyBody, []) exs = Inr st" and
    ch: "map (\<lambda>p. generateSequelizeModel u (toCamelCase u (fst p)) (examples (snd p))) (ownEntries (snd st))
       = map Inr otherModels" and
    files: "fst out = (modelName, finalBody (fst st)) # concat (map fst otherModels)"
    by (rule generateSequelizeModel_Inr)
  from "1.prems"(2) files consider
    (own) "file = (modelName, finalBody (fst st))" |
    (sub) r where "r \<in> set otherModels" "file \<in> set (fst r)"
    by auto
  then show ?case
  proof cases
    case own
    with "1.prems"(3) show ?thesis by (simp add: finalBody_set)
  next
    case sub
    from sub(1) have "Inr r \<in> set (map Inr otherModels)" by simp
    with ch obtain q where q: "q \<in> set (ownEntries (snd st))"
      and r: "generateSequelizeModel u (toCamelCase u (fst q)) (examples (snd q)) = Inr r"
      by (metis (no_types, lifting) imageE list.set_map)
    from "1.IH"[OF st q r sub(2) "1.prems"(3)] show ?thesis .
  qed
qed

lemma address_run:
  "generateSequelizeModel sampleHost ''user''
     [JObj [(''id'', JNum 1), (''address'', JObj [(''city'', JStr ''X'')])]] =
   Inr ([(''user'', [(''id'', \<lparr>type' = Some ''DataTypes.INTEGER'', field = ''id''\<rparr>)]),
         (''address'', [(''city'', \<lparr>type' = Some ''DataTypes.STRING'', field = ''city''\<rparr>)])],
        [\<lparr>model = ''user'', assoc_1n = [],
          assoc_11 = [\<lparr>name = ''address'', relation = ''1:1'',
                       examples = [JObj [(''city'', JStr ''X'')]]\<rparr>]\<rparr>,
         \<lparr>model = ''address'', assoc_1n = [], assoc_11 = []\<rparr>])"
  by code_simp

subsection \<open>Stripping of nested fields\<close>

text \<open>
  Claim C6. When a decomposition completes, no field of any model file it has written
  holds the type \<^verbatim>\<open>DataTypes.NESTED\<close>: this holds for the job's own file and for the file
  of every job below it. The job's own file comes first, and its fields are exactly the
  own properties of the folded field map whose type is not \<^verbatim>\<open>DataTypes.NESTED\<close>, so a
  field that ended with that tag has been removed.
\<close>

theorem structured_stripped:
  assumes "generateSequelizeModel u modelName exs = Inr out"
  shows "(\<forall>file \<in> set (fst out). \<forall>p \<in> set (snd file). type' (snd p) \<noteq> Some ''DataTypes.NESTED'') \<and>
         (\<exists>st. visitExamples u (emptyBody, []) exs = Inr st \<and>
               hd (fst out) = (modelName, finalBody (fst st)) \<and>
               set (finalBody (fst st)) =
                 {p \<in> set (props (fst st)). type' (snd p) \<noteq> Some ''DataTypes.NESTED''})"
proof
  show "\<forall>file \<in> set (fst out). \<forall>p \<in> set (snd file). type' (snd p) \<noteq> Some ''DataTypes.NESTED''"
    using assms no_nested_written by blast
next
  from assms obtain st otherModels where
    "visitExamples u (emptyBody, []) exs = Inr st"
    "map (\<lambda>p. generateSequelizeModel u (toCamelCase u (fst p)) (examples (snd p))) (ownEntries (snd st))
       = map Inr otherModels"
    "fst out = (modelName, finalBody (fst st)) # concat (map fst otherModels)"
    by (rule generateSequelizeModel_Inr)
  then show "\<exists>st. visitExamples u (emptyBody, []) exs = Inr st \<and>
               hd (fst out) = (modelName, finalBody (fst st)) \<and>
               set (finalBody (fst st)) =
                 {p \<in> set (props (fst st)). type' (snd p) \<noteq> Some ''DataTypes.NESTED''}"
    by (auto simp: finalBody_set)
qed

text \<open>The invariant at a run that writes two files, one for a nested object.\<close>

theorem structured_stripped_witness:
  "generateSequelizeModel sampleHost ''user''
     [JObj [(''id'', JNum 1), (''address'', JObj [(''city'', JStr ''X'')])]] =
   Inr ([(''user'', [(''id'', \<lparr>type' = Some ''DataTypes.INTEGER'', field = ''id''\<rparr>)]),
         (''address'', [(''city'', \<lparr>type' = Some ''DataTypes.STRING'', field = ''city''\<rparr>)])],
        [\<lparr>model = ''user'', assoc_1n = [],
          assoc_11 = [\<lparr>name = ''address'', relation = ''1:1'',
                       examples = [JObj [(''city'', JStr ''X'')]]\<rparr>]\<rparr>,
         \<lparr>model = ''address'', assoc_1n = [], assoc_11 = []\<rparr>]) \<and>
   list_all (\<lambda>file. list_all (\<lambda>p. type' (snd p) \<noteq> Some ''DataTypes.NESTED'') (snd file))
     [(''user'', [(''id'', \<lparr>type' = Some ''DataTypes.INTEGER'', field = ''id''\<rparr>)]),
      (''address'', [(''city'', \<lparr>type' = Some ''DataTypes.STRING'', field = ''city''\<rparr>)])]"
proof -
  from structured_stripped[OF address_run, THEN conjunct1]
  have "list_all (\<lambda>file. list_all (\<lambda>p. type' (snd p) \<noteq> Some ''DataTypes.NESTED'') (snd file))
     [(''user'', [(''id'', \<lparr>type' = Some ''DataTypes.INTEGER'', field = ''id''\<rparr>)]),
      (''address'', [(''city'', \<lparr>type' = Some ''DataTypes.STRING'', field = ''city''\<rparr>)])]"
    by (simp only: list_all_iff fst_conv)
  with address_run show ?thesis by (rule conjI)
qed

subsection \<open>Strings: dates, integers and long texts\<close>

lemmas parse_defs = parseInt_def isWhiteSpace_def isDigit_def digitsValue_def digitValue_def

text \<open>
  What \<^verbatim>\<open>parseInt\<close> reads: white space and a sign are skipped, a leading run of digits
  is the result, and what follows the digits is ignored.
\<close>

lemma digit_not_space: "isDigit c \<Longrightarrow> \<not> isWhiteSpace c \<and> c \<noteq> CHR ''-'' \<and> c \<noteq> CHR ''+''"
  by (auto simp: isDigit_def isWhiteSpace_def)

lemma parseInt_digit_led: "isDigit c \<Longrightarrow> parseInt (c # s) \<noteq> None"
  using digit_not_space[of c] by (simp add: parseInt_def Let_def)

lemma parseInt_examples:
  "parseInt '' 12'' = Some 12 \<and> parseInt ''-7x'' = Some (- 7) \<and> parseInt ''0012'' = Some 12 \<and>
   parseInt ''2020-01-01'' = Some 2020 \<and> parseInt ''+'' = None \<and> parseInt ''Jan 1'' = None \<and>
   parseInt '''' = None"
  by (simp add: parse_defs)

text \<open>Every plain integer is read by \<^verbatim>\<open>parseInt\<close>; the converse fails, as the examples show.\<close>

lemma plainInteger_parses: 
  assumes "plainInteger s" shows "parseInt s \<noteq> None"
proof (cases s)
  case Nil
  with assms show ?thesis by (simp add: plainInteger_def)
next
  case (Cons c r)
  show ?thesis
  proof (cases "c = CHR ''-'' \<or> c = CHR ''+''")
    case True
    with assms Cons obtain d r' where r: "r = d # r'" and d: "isDigit d"
      by (cases r) (auto simp: plainInteger_def)
    from True have "\<not> isWhiteSpace c" by (auto simp: isWhiteSpace_def)
    with True r d show ?thesis unfolding Cons by (auto simp: parseInt_def Let_def)
  next
    case False
    with assms Cons have "isDigit c" by (simp add: plainInteger_def)
    then show ?thesis unfolding Cons by (rule parseInt_digit_led)
  qed
qed

text \<open>
  The classifier returns \<^verbatim>\<open>DataTypes.DATE\<close> exactly when the host reads the string as a
  valid date and \<^verbatim>\<open>parseInt\<close> yields \<^verbatim>\<open>NaN\<close>. So a string classified as a date is a date
  and no plain integer; \<^verbatim>\<open>"0012"\<close> is never a date; a string in the \<^verbatim>\<open>toUTCString\<close>
  format, which starts with a letter, is one.
\<close>

lemma date_tag_condition:
  "(inferDataType u (JStr s) key am = Inr (Some ''DataTypes.DATE'', am)) =
     (dateIsValid u s \<and> parseInt s = None)"
  by simp

lemma date_only_for_dates:
  assumes "inferDataType u (JStr s) key am = Inr (Some ''DataTypes.DATE'', am')"
  shows "dateIsValid u s \<and> \<not> plainInteger s"
proof -
  from assms have "dateIsValid u s \<and> parseInt s = None" by (auto split: if_splits)
  with plainInteger_parses[of s] show ?thesis by auto
qed

lemma leading_zero_is_string:
  "inferDataType u (JStr ''0012'') key am = Inr (Some ''DataTypes.STRING'', am)"
proof -
  have "parseInt ''0012'' = Some 12" by (simp add: parse_defs)
  then show ?thesis by simp
qed

lemma utc_date_is_date:
  "inferDataType sampleHost (JStr ''Wed, 01 Jan 2020 00:00:00 GMT'') ''created'' [] =
     Inr (Some ''DataTypes.DATE'', [])"
  by (simp add: sampleHost_def parse_defs)

text \<open>
  A string that starts with a digit has an integer prefix, so the guard keeps it from
  \<^verbatim>\<open>DataTypes.DATE\<close> in every host, whatever follows the digit.
\<close>

lemma digit_led_never_date:
  "isDigit c \<Longrightarrow> inferDataType u (JStr (c # s)) key am \<noteq> Inr (Some ''DataTypes.DATE'', am')"
  using parseInt_digit_led[of c s] by (auto split: if_splits)

lemma digit_led_date_is_string:
  "inferDataType u (JStr ''2020-01-01'') key am = Inr (Some ''DataTypes.STRING'', am)"
proof -
  have "parseInt ''2020-01-01'' = Some 2020" by (simp add: parse_defs)
  then show ?thesis by simp
qed

text \<open>
  Claim C5 says that a string is classified \<^verbatim>\<open>DataTypes.DATE\<close> if and only if it parses as
  a calendar date and does not parse as a plain integer. The string \<^verbatim>\<open>"2020-01-01"\<close> is a
  date the host reads and is no plain integer, yet the classifier returns
  \<^verbatim>\<open>DataTypes.STRING\<close> for it: \<^verbatim>\<open>parseInt\<close> reads the prefix 2020, so the guard written
  for values like \<^verbatim>\<open>"001"\<close> rejects every date that starts with a digit.
\<close>

theorem iso_date_classified_string:
  "dateIsValid sampleHost ''2020-01-01'' \<and> \<not> plainInteger ''2020-01-01'' \<and>
   parseInt ''2020-01-01'' = Some 2020 \<and>
   inferDataType sampleHost (JStr ''2020-01-01'') ''created'' [] = Inr (Some ''DataTypes.STRING'', [])"
  by code_simp

subsection \<open>The special types\<close>

text \<open>
  The classifier spells its long-string tag with single quotes, \<^verbatim>\<open>DataTypes.STRING('MAX')\<close>;
  the list of special types holds the spelling with double quotes. No tag the classifier
  returns is a member of that list.
\<close>

lemma inferred_not_special:
  assumes "inferDataType u v key am = Inr r" and "fst r = Some t"
  shows "t \<notin> set specialTypes"
  using assms
  by (cases v) (auto simp: specialTypes_def split: if_splits sum.splits)

text \<open>
  Claim C1 says that a field tagged \<^verbatim>\<open>DataTypes.STRING('MAX')\<close> by the length rule keeps
  that tag whatever later records hold. The run below does not keep it: the first
  record's 141 characters give the field the long-string tag, the second record's short
  string replaces it with \<^verbatim>\<open>DataTypes.STRING\<close>, because the guard compares the stored tag
  with the double-quoted spelling and never matches.
\<close>

theorem sticky_type_overwritten:
  "generateSequelizeModel sampleHost ''user''
     [JObj [(''bio'', JStr longText)], JObj [(''bio'', JStr ''short'')]] =
   Inr ([(''user'', [(''bio'', \<lparr>type' = Some ''DataTypes.STRING'', field = ''bio''\<rparr>)])],
        [\<lparr>model = ''user'', assoc_1n = [], assoc_11 = []\<rparr>])"
  by code_simp

text \<open>With the two records in the other order the long-string tag is the final one.\<close>

lemma sticky_type_other_order:
  "generateSequelizeModel sampleHost ''user''
     [JObj [(''bio'', JStr ''short'')], JObj [(''bio'', JStr longText)]] =
   Inr ([(''user'', [(''bio'', \<lparr>type' = Some ''DataTypes.STRING('MAX')'', field = ''bio''\<rparr>)])],
        [\<lparr>model = ''user'', assoc_1n = [], assoc_11 = []\<rparr>])"
  by code_simp

subsection \<open>Arrays\<close>

text \<open>
  An array whose first element is truthy and not an object is collapsed to
  \<^verbatim>\<open>DataTypes.STRING('MAX')\<close> and leaves the accumulator as it is.
\<close>

lemma scalar_array_collapsed:
  "xs \<noteq> [] \<Longrightarrow> truthy (hd xs) \<Longrightarrow> typeof (hd xs) \<noteq> TObject \<Longrightarrow>
   inferDataType u (JArr xs) key am = Inr (Some ''DataTypes.STRING('MAX')'', am)"
  by simp

text \<open>
  Claim C3 says that every non-empty array whose first element is not a structured value
  is collapsed to the long-string tag and registers no association. The test in the
  source is \<^verbatim>\<open>value[0] && typeof value[0] !== "object"\<close>: a first element that is falsy
  (\<^verbatim>\<open>0\<close>, the empty string, \<^verbatim>\<open>false\<close>) fails it. The array of numbers below is
  registered as a one-to-many association and classified \<^verbatim>\<open>DataTypes.NESTED\<close>.
\<close>

theorem falsy_head_array_registered:
  "inferDataType sampleHost (JArr [JNum 0, JNum 5]) ''scores'' [] =
     Inr (Some ''DataTypes.NESTED'',
          [(''scores'', \<lparr>name = ''scores'', relation = ''1:n'', examples = [JNum 0, JNum 5]\<rparr>)])"
  by code_simp

subsection \<open>Keys that are property names of an array\<close>

text \<open>
  The accumulator is an array. Under a key that camel-cases to \<^verbatim>\<open>length\<close> the read
  yields the number 0 and the store of the new model throws; under the name of an
  inherited method the read yields a function, nothing is stored, and the push throws.
\<close>

lemma length_key_throws:
  "toCamelCase u key = ''length'' \<Longrightarrow> inferDataType u (JObj kvs) key [] = Inl RangeError"
  by (simp add: ensureModel_def hasModel_def arrayLength_def)

lemma inherited_key_throws:
  "arrayInherits u (toCamelCase u key) \<Longrightarrow> toCamelCase u key \<noteq> ''length'' \<Longrightarrow>
   map_of am (toCamelCase u key) = None \<Longrightarrow> inferDataType u (JObj kvs) key am = Inl TypeError"
  by (simp add: ensureModel_def hasModel_def pushExamples_def)

text \<open>
  Claim C9 says that classification and merging never throw for a well-formed record.
  The record below maps string keys to JSON values; the classifier throws a
  \<^verbatim>\<open>RangeError\<close> at its field \<^verbatim>\<open>length\<close>, and so does the job that scans the record.
\<close>

theorem well_formed_record_throws:
  "inferDataType sampleHost (JObj [(''metres'', JNum 3)]) ''length'' [] = Inl RangeError \<and>
   generateSequelizeModel sampleHost ''plank''
     [JObj [(''id'', JNum 1), (''length'', JObj [(''metres'', JNum 3)])]] = Inl RangeError"
  by code_simp

subsection \<open>The fold over the observations\<close>

lemma visitEntries_append:
  "visitEntries u st (xs @ ys) =
     (case visitEntries u st xs of Inl e \<Rightarrow> Inl e | Inr st1 \<Rightarrow> visitEntries u st1 ys)"
  by (induction xs arbitrary: st) (auto split: sum.splits)

lemma visitExamples_flat:
  "visitExamples u st exs = Inr st' \<Longrightarrow>
   \<exists>obs. allEntries exs = Inr obs \<and> visitEntries u st obs = Inr st'"
proof (induction exs arbitrary: st)
  case Nil
  then show ?case by simp
next
  case (Cons ex exs)
  from Cons.prems obtain kvs st1 where
    0: "entriesOf ex = Inr kvs" and 1: "visitEntries u st kvs = Inr st1" and
    2: "visitExamples u st1 exs = Inr st'"
    by (auto split: sum.splits)
  from Cons.IH[OF 2] obtain rest where "allEntries exs = Inr rest" "visitEntries u st1 rest = Inr st'"
    by blast
  with 0 1 show ?case by (simp add: visitEntries_append)
qed

lemma map_of_replace:
  "map_of (map (\<lambda>p. if fst p = k then (k, e) else p) ps) k' =
     (if k' = k then map_option (\<lambda>_. e) (map_of ps k) else map_of ps k')"
  by (induction ps) auto

lemma map_of_upsert: "map_of (upsert k e ps) k' = (if k' = k then Some e else map_of ps k')"
proof (cases "map_of ps k")
  case None
  then have "upsert k e ps = ps @ [(k, e)]" by (simp add: upsert_def)
  with None show ?thesis by (simp add: map_add_def split: option.splits)
next
  case (Some a)
  then have "upsert k e ps = map (\<lambda>p. if fst p = k then (k, e) else p) ps" by (simp add: upsert_def)
  with Some show ?thesis by (simp add: map_of_replace)
qed

lemma fst_replace: "map fst (map (\<lambda>p. if fst p = k then (k, e) else p) ps) = map fst ps"
  by (induction ps) auto

lemma upsert_distinct: "distinct (map fst ps) \<Longrightarrow> distinct (map fst (upsert k e ps))"
proof (cases "map_of ps k")
  case None
  assume d: "distinct (map fst ps)"
  from None have "k \<notin> fst ` set ps" by (simp add: map_of_eq_None_iff)
  moreover from None have "upsert k e ps = ps @ [(k, e)]" by (simp add: upsert_def)
  ultimately show ?thesis using d by simp
next
  case (Some a)
  assume d: "distinct (map fst ps)"
  from Some have "upsert k e ps = map (\<lambda>p. if fst p = k then (k, e) else p) ps" by (simp add: upsert_def)
  with d show ?thesis by (simp only: fst_replace)
qed

lemma unspecial_empty: "unspecial emptyBody"
  by (simp add: unspecial_def emptyBody_def)

lemma bodyGet_unspecial:
  assumes "unspecial b" and "bodyGet u b k = Some (Some t)"
  shows "t \<notin> set specialTypes"
proof (cases "map_of (props b) k")
  case (Some e)
  then have "(k, e) \<in> set (props b)" by (rule map_of_SomeD)
  with assms(1) have "case type' e of None \<Rightarrow> True | Some t \<Rightarrow> t \<notin> set specialTypes"
    by (auto simp: unspecial_def list_all_iff)
  moreover from assms(2) Some have "type' e = Some t" by (simp add: bodyGet_def)
  ultimately show ?thesis by simp
next
  case None
  with assms show ?thesis
    by (auto simp: bodyGet_def unspecial_def split: option.splits if_splits)
qed

lemma visitEntry_unguarded:
  assumes "unspecial b"
  shows "visitEntry u (b, am) kv =
     (case inferDataType u (snd kv) (fst kv) am of
        Inl e \<Rightarrow> Inl e
      | Inr r \<Rightarrow>
          Inr (bodySet b (toCamelCase u (fst kv))
                 \<lparr>type' = mergedType u b (toCamelCase u (fst kv)) (fst r), field = fst kv\<rparr>,
               snd r))"
proof -
  have "\<not> (case bodyGet u b (toCamelCase u (fst kv)) of
             Some (Some t) \<Rightarrow> t \<in> set specialTypes | _ \<Rightarrow> False)"
    using bodyGet_unspecial[OF assms] by (auto split: option.splits)
  then show ?thesis by (simp add: visitEntry_def Let_def)
qed

lemma mergedType_unspecial:
  assumes "unspecial b" and "inferDataType u v key am = Inr r"
  shows "case mergedType u b k (fst r) of None \<Rightarrow> True | Some t \<Rightarrow> t \<notin> set specialTypes"
proof (cases "fst r")
  case None
  show ?thesis
  proof (cases "bodyGet u b k")
    case None
    with \<open>fst r = None\<close> show ?thesis by (simp add: mergedType_def specialTypes_def)
  next
    case (Some t)
    with \<open>fst r = None\<close> bodyGet_unspecial[OF assms(1), of u k] show ?thesis
      by (auto simp: mergedType_def split: option.splits)
  qed
next
  case (Some t)
  with inferred_not_special[OF assms(2)] show ?thesis by (simp add: mergedType_def)
qed

lemma list_all_upsert: "list_all P ps \<Longrightarrow> P (k, e) \<Longrightarrow> list_all P (upsert k e ps)"
  by (auto simp: upsert_def list_all_iff)

lemma bodySet_unspecial:
  assumes "unspecial b" and "case type' e of None \<Rightarrow> True | Some t \<Rightarrow> t \<notin> set specialTypes"
  shows "unspecial (bodySet b k e)"
proof (cases "k = ''__proto__''")
  case True
  with assms show ?thesis by (simp add: bodySet_def unspecial_def)
next
  case False
  with assms show ?thesis
    by (simp add: bodySet_def unspecial_def list_all_upsert)
qed

lemma visitEntry_unspecial:
  assumes "unspecial b" and "visitEntry u (b, am) kv = Inr (b', am')"
  shows "unspecial b'"
proof -
  from assms obtain r where r: "inferDataType u (snd kv) (fst kv) am = Inr r"
    and b': "b' = bodySet b (toCamelCase u (fst kv))
                 \<lparr>type' = mergedType u b (toCamelCase u (fst kv)) (fst r), field = fst kv\<rparr>"
    by (auto simp: visitEntry_unguarded split: sum.splits)
  from mergedType_unspecial[OF assms(1) r] show ?thesis
    unfolding b' by (intro bodySet_unspecial[OF assms(1)]) simp
qed

lemma visitEntries_unspecial:
  "visitEntries u (b, am) obs = Inr (b', am') \<Longrightarrow> unspecial b \<Longrightarrow> unspecial b'"
proof (induction obs arbitrary: b am)
  case Nil
  then show ?case by simp
next
  case (Cons kv obs)
  from Cons.prems(1) obtain b1 am1 where
    1: "visitEntry u (b, am) kv = Inr (b1, am1)" and 2: "visitEntries u (b1, am1) obs = Inr (b', am')"
    by (auto split: sum.splits)
  from Cons.IH[OF 2 visitEntry_unspecial[OF Cons.prems(2) 1]] show ?case .
qed

subsection \<open>What the merger stores\<close>

text \<open>
  Claim C4, as amended. For a field the map already holds, the merger keeps the stored
  type exactly when the classifier returns \<^verbatim>\<open>null\<close>. Whatever tag the classifier returns
  replaces the stored type, and \<^verbatim>\<open>DataTypes.NESTED\<close> is such a tag: a nested observation
  overwrites an earlier scalar type. In both cases the stored original key becomes the
  key of this observation, and the accumulator is the one the classifier returns.
\<close>

theorem merger_keeps_or_replaces:
  assumes "visitEntry u (b, am) (key, v) = Inr (b', am')"
    and "unspecial b"
    and "map_of (props b) (toCamelCase u key) = Some e"
    and "inferDataType u v key am = Inr (inferredType, am1)"
  shows "map_of (props b') (toCamelCase u key) =
           Some \<lparr>type' = (case inferredType of None \<Rightarrow> type' e | Some t \<Rightarrow> Some t), field = key\<rparr> \<and>
         am' = am1"
proof -
  from assms(3) have "(toCamelCase u key, e) \<in> set (props b)" by (rule map_of_SomeD)
  with assms(2) have k: "toCamelCase u key \<noteq> ''__proto__''"
    by (auto simp: unspecial_def list_all_iff)
  from assms(3) have get: "bodyGet u b (toCamelCase u key) = Some (type' e)"
    by (simp add: bodyGet_def)
  from assms(1,4) have b': "b' = bodySet b (toCamelCase u key)
      \<lparr>type' = mergedType u b (toCamelCase u key) inferredType, field = key\<rparr>" and am': "am' = am1"
    by (simp_all add: visitEntry_unguarded[OF assms(2)])
  have "mergedType u b (toCamelCase u key) inferredType =
        (case inferredType of None \<Rightarrow> type' e | Some t \<Rightarrow> Some t)"
    by (simp add: mergedType_def get split: option.splits)
  with k b' am' show ?thesis by (simp add: bodySet_def map_of_upsert)
qed

text \<open>A \<^verbatim>\<open>null\<close> under the key \<^verbatim>\<open>first_name\<close> keeps the integer type of \<^verbatim>\<open>firstName\<close>.\<close>

lemma merger_null_step:
  "visitEntry sampleHost
     (\<lparr>proto = None, props = [(''firstName'', \<lparr>type' = Some ''DataTypes.INTEGER'', field = ''firstName''\<rparr>)]\<rparr>, [])
     (''first_name'', JNull) =
   Inr (\<lparr>proto = None, props = [(''firstName'', \<lparr>type' = Some ''DataTypes.INTEGER'', field = ''first_name''\<rparr>)]\<rparr>, [])"
  by code_simp

theorem merger_keeps_or_replaces_witness:
  "unspecial \<lparr>proto = None, props = [(''firstName'', \<lparr>type' = Some ''DataTypes.INTEGER'', field = ''firstName''\<rparr>)]\<rparr> \<and>
   inferDataType sampleHost JNull ''first_name'' [] = Inr (None, []) \<and>
   visitEntry sampleHost
     (\<lparr>proto = None, props = [(''firstName'', \<lparr>type' = Some ''DataTypes.INTEGER'', field = ''firstName''\<rparr>)]\<rparr>, [])
     (''first_name'', JNull) =
   Inr (\<lparr>proto = None, props = [(''firstName'', \<lparr>type' = Some ''DataTypes.INTEGER'', field = ''first_name''\<rparr>)]\<rparr>, []) \<and>
   map_of (props \<lparr>proto = None, props = [(''firstName'', \<lparr>type' = Some ''DataTypes.INTEGER'', field = ''first_name''\<rparr>)]\<rparr>)
     ''firstName'' = Some \<lparr>type' = Some ''DataTypes.INTEGER'', field = ''first_name''\<rparr>"
proof -
  have inv: "unspecial \<lparr>proto = None, props = [(''firstName'', \<lparr>type' = Some ''DataTypes.INTEGER'', field = ''firstName''\<rparr>)]\<rparr>"
    by (simp add: unspecial_def specialTypes_def)
  have prev: "map_of (props \<lparr>proto = None, props = [(''firstName'', \<lparr>type' = Some ''DataTypes.INTEGER'', field = ''firstName''\<rparr>)]\<rparr>)
     (toCamelCase sampleHost ''first_name'') = Some \<lparr>type' = Some ''DataTypes.INTEGER'', field = ''firstName''\<rparr>"
    by (simp add: sampleHost_def)
  have cls: "inferDataType sampleHost JNull ''first_name'' [] = Inr (None, [])" by simp
  have cc: "toCamelCase sampleHost ''first_name'' = ''firstName''" by (simp add: sampleHost_def)
  from merger_keeps_or_replaces[OF merger_null_step inv prev cls]
  have "map_of (props \<lparr>proto = None, props = [(''firstName'', \<lparr>type' = Some ''DataTypes.INTEGER'', field = ''first_name''\<rparr>)]\<rparr>)
     ''firstName'' = Some \<lparr>type' = Some ''DataTypes.INTEGER'', field = ''first_name''\<rparr>"
    by (simp only: cc option.case bodyEntry.simps)
  with inv cls merger_null_step show ?thesis by (intro conjI)
qed

text \<open>
  Claim C4 as stated fails for a nested observation: the field \<^verbatim>\<open>a\<close> is an integer in the
  first record and an object in the second. The merger replaces the integer type by
  \<^verbatim>\<open>DataTypes.NESTED\<close>, and the finished field map of the job has no field \<^verbatim>\<open>a\<close>.
\<close>

theorem nested_erases_scalar:
  "visitEntry sampleHost
     (\<lparr>proto = None, props = [(''a'', \<lparr>type' = Some ''DataTypes.INTEGER'', field = ''a''\<rparr>)]\<rparr>, [])
     (''a'', JObj [(''b'', JNum 2)]) =
   Inr (\<lparr>proto = None, props = [(''a'', \<lparr>type' = Some ''DataTypes.NESTED'', field = ''a''\<rparr>)]\<rparr>,
        [(''a'', \<lparr>name = ''a'', relation = ''1:1'', examples = [JObj [(''b'', JNum 2)]]\<rparr>)]) \<and>
   generateSequelizeModel sampleHost ''user''
     [JObj [(''a'', JNum 1)], JObj [(''a'', JObj [(''b'', JNum 2)])]] =
   Inr ([(''user'', []),
         (''a'', [(''b'', \<lparr>type' = Some ''DataTypes.INTEGER'', field = ''b''\<rparr>)])],
        [\<lparr>model = ''user'', assoc_1n = [],
          assoc_11 = [\<lparr>name = ''a'', relation = ''1:1'', examples = [JObj [(''b'', JNum 2)]]\<rparr>]\<rparr>,
         \<lparr>model = ''a'', assoc_1n = [], assoc_11 = []\<rparr>])"
  by code_simp

subsection \<open>The original key of a field\<close>

lemma visitEntry_props_distinct:
  assumes "visitEntry u (b, am) kv = Inr (b', am')" and "distinct (map fst (props b))"
  shows "distinct (map fst (props b'))"
  using assms
  by (auto simp: visitEntry_def Let_def bodySet_def upsert_distinct split: if_splits sum.splits)

lemma visitEntries_props_distinct:
  "visitEntries u (b, am) obs = Inr (b', am') \<Longrightarrow> distinct (map fst (props b)) \<Longrightarrow>
   distinct (map fst (props b'))"
proof (induction obs arbitrary: b am)
  case Nil
  then show ?case by simp
next
  case (Cons kv obs)
  from Cons.prems(1) obtain b1 am1 where
    1: "visitEntry u (b, am) kv = Inr (b1, am1)" and 2: "visitEntries u (b1, am1) obs = Inr (b', am')"
    by (auto split: sum.splits)
  from Cons.IH[OF 2 visitEntry_props_distinct[OF 1 Cons.prems(2)]] show ?case .
qed

lemma ownEntries_distinct:
  assumes "distinct (map fst ps)"
  shows "distinct (map fst (ownEntries ps))"
proof -
  let ?A = "filter (\<lambda>p. isArrayIndex (fst p)) ps"
  let ?B = "filter (\<lambda>p. \<not> isArrayIndex (fst p)) ps"
  from assms have dA: "distinct (map fst ?A)" and dB: "distinct (map fst ?B)"
    by (simp_all add: distinct_map_filter)
  from dA have "distinct (map fst (sort_key (\<lambda>p. digitsValue (fst p)) ?A))"
    by (simp add: distinct_map)
  moreover have "fst ` set (sort_key (\<lambda>p. digitsValue (fst p)) ?A) \<inter> fst ` set ?B = {}"
    by auto
  ultimately show ?thesis using dB by (simp add: ownEntries_def)
qed

lemma fields_after:
  "visitEntries u (b, am) obs = Inr (b', am') \<Longrightarrow> unspecial b \<Longrightarrow> map_of (props b') k = Some e \<Longrightarrow>
   (if [kv\<leftarrow>obs. toCamelCase u (fst kv) = k] = [] then map_of (props b) k = Some e
    else field e = fst (last [kv\<leftarrow>obs. toCamelCase u (fst kv) = k]))"
proof (induction obs arbitrary: b am)
  case Nil
  then show ?case by simp
next
  case (Cons kv obs)
  from Cons.prems(1) obtain b1 am1 where
    1: "visitEntry u (b, am) kv = Inr (b1, am1)" and 2: "visitEntries u (b1, am1) obs = Inr (b', am')"
    by (auto split: sum.splits)
  from visitEntry_unspecial[OF Cons.prems(2) 1] have inv1: "unspecial b1" .
  note IH = Cons.IH[OF 2 inv1 Cons.prems(3)]
  from 1 obtain r where b1: "b1 = bodySet b (toCamelCase u (fst kv))
      \<lparr>type' = mergedType u b (toCamelCase u (fst kv)) (fst r), field = fst kv\<rparr>"
    by (auto simp: visitEntry_unguarded[OF Cons.prems(2)] split: sum.splits)
  have noproto: "map_of (props b) ''__proto__'' = None"
    using Cons.prems(2) by (auto simp: unspecial_def list_all_iff map_of_eq_None_iff)
  show ?case
  proof (cases "toCamelCase u (fst kv) = k")
    case True
    show ?thesis
    proof (cases "[kv\<leftarrow>obs. toCamelCase u (fst kv) = k] = []")
      case empty: True
      with IH have "map_of (props b1) k = Some e" by simp
      with True noproto have "field e = fst kv"
        by (auto simp: b1 bodySet_def map_of_upsert split: if_splits)
      with True empty show ?thesis by simp
    next
      case False
      with IH True show ?thesis by simp
    qed
  next
    case False
    then have "map_of (props b1) k = map_of (props b) k"
      by (auto simp: b1 bodySet_def map_of_upsert)
    with IH False show ?thesis by (auto split: if_splits)
  qed
qed

text \<open>
  Claim C10. In the field map a job prints, every field name occurs once, every field
  was observed, and its stored original key (\<^verbatim>\<open>field\<close>) is the raw key of the last
  observation, in the order of the records and of their entries, whose key camel-cases
  to the field's name.
\<close>

theorem last_spelling_wins:
  assumes "generateSequelizeModel u modelName exs = Inr out"
  shows "\<exists>obs fields.
           allEntries exs = Inr obs \<and> hd (fst out) = (modelName, fields) \<and>
           distinct (map fst fields) \<and>
           (\<forall>p \<in> set fields.
              [kv\<leftarrow>obs. toCamelCase u (fst kv) = fst p] \<noteq> [] \<and>
              field (snd p) = fst (last [kv\<leftarrow>obs. toCamelCase u (fst kv) = fst p]))"
proof -
  from assms obtain st otherModels where
    st: "visitExamples u (emptyBody, []) exs = Inr st" and
    "map (\<lambda>p. generateSequelizeModel u (toCamelCase u (fst p)) (examples (snd p))) (ownEntries (snd st))
       = map Inr otherModels" and
    files: "fst out = (modelName, finalBody (fst st)) # concat (map fst otherModels)"
    by (rule generateSequelizeModel_Inr)
  from visitExamples_flat[OF st] obtain obs where
    obs: "allEntries exs = Inr obs" and run: "visitEntries u (emptyBody, []) obs = Inr (fst st, snd st)"
    by auto
  from visitEntries_props_distinct[OF run] have d: "distinct (map fst (props (fst st)))"
    by (simp add: emptyBody_def)
  then have d': "distinct (map fst (finalBody (fst st)))"
    unfolding finalBody_def by (intro ownEntries_distinct distinct_map_filter)
  have "[kv\<leftarrow>obs. toCamelCase u (fst kv) = fst p] \<noteq> [] \<and>
        field (snd p) = fst (last [kv\<leftarrow>obs. toCamelCase u (fst kv) = fst p])"
    if "p \<in> set (finalBody (fst st))" for p
  proof -
    from that have "(fst p, snd p) \<in> set (props (fst st))" by (simp add: finalBody_set)
    with d have "map_of (props (fst st)) (fst p) = Some (snd p)" by (rule map_of_is_SomeI)
    from fields_after[OF run unspecial_empty this] show ?thesis
      by (auto simp: emptyBody_def split: if_splits)
  qed
  with obs files d' show ?thesis by auto
qed

text \<open>
  Two spellings of one field: the later record's \<^verbatim>\<open>first_name\<close> replaces the earlier
  \<^verbatim>\<open>firstName\<close> as the original key, and the field map has one entry.
\<close>

lemma spelling_run:
  "generateSequelizeModel sampleHost ''user''
     [JObj [(''firstName'', JStr ''Ann'')], JObj [(''first_name'', JStr ''Bob'')]] =
   Inr ([(''user'', [(''firstName'', \<lparr>type' = Some ''DataTypes.STRING'', field = ''first_name''\<rparr>)])],
        [\<lparr>model = ''user'', assoc_1n = [], assoc_11 = []\<rparr>])"
  by code_simp

theorem last_spelling_wins_witness:
  "generateSequelizeModel sampleHost ''user''
     [JObj [(''firstName'', JStr ''Ann'')], JObj [(''first_name'', JStr ''Bob'')]] =
   Inr ([(''user'', [(''firstName'', \<lparr>type' = Some ''DataTypes.STRING'', field = ''first_name''\<rparr>)])],
        [\<lparr>model = ''user'', assoc_1n = [], assoc_11 = []\<rparr>]) \<and>
   allEntries [JObj [(''firstName'', JStr ''Ann'')], JObj [(''first_name'', JStr ''Bob'')]] =
     Inr [(''firstName'', JStr ''Ann''), (''first_name'', JStr ''Bob'')] \<and>
   list_all (\<lambda>p. field (snd p) =
       fst (last [kv\<leftarrow>[(''firstName'', JStr ''Ann''), (''first_name'', JStr ''Bob'')].
                   toCamelCase sampleHost (fst kv) = fst p]))
     [(''firstName'', \<lparr>type' = Some ''DataTypes.STRING'', field = ''first_name''\<rparr>)]"
proof -
  have ae: "allEntries [JObj [(''firstName'', JStr ''Ann'')], JObj [(''first_name'', JStr ''Bob'')]] =
     Inr [(''firstName'', JStr ''Ann''), (''first_name'', JStr ''Bob'')]"
    by simp
  from last_spelling_wins[OF spelling_run] obtain obs fields where
    a: "allEntries [JObj [(''firstName'', JStr ''Ann'')], JObj [(''first_name'', JStr ''Bob'')]] = Inr obs" and
    h: "hd (fst ([(''user'', [(''firstName'', \<lparr>type' = Some ''DataTypes.STRING'', field = ''first_name''\<rparr>)])],
        [\<lparr>model = ''user'', assoc_1n = [], assoc_11 = []\<rparr>])) = (''user'', fields)" and
    l: "\<forall>p \<in> set fields. field (snd p) = fst (last [kv\<leftarrow>obs. toCamelCase sampleHost (fst kv) = fst p])"
    by blast
  from a ae have o: "obs = [(''firstName'', JStr ''Ann''), (''first_name'', JStr ''Bob'')]" by simp
  from h have f: "fields = [(''firstName'', \<lparr>type' = Some ''DataTypes.STRING'', field = ''first_name''\<rparr>)]"
    by simp
  from l have "list_all (\<lambda>p. field (snd p) =
       fst (last [kv\<leftarrow>[(''firstName'', JStr ''Ann''), (''first_name'', JStr ''Bob'')].
                   toCamelCase sampleHost (fst kv) = fst p]))
     [(''firstName'', \<lparr>type' = Some ''DataTypes.STRING'', field = ''first_name''\<rparr>)]"
    unfolding o f by (simp only: list_all_iff)
  with spelling_run ae show ?thesis by (intro conjI)
qed

subsection \<open>The cardinality of an association\<close>

lemma map_of_push:
  "map_of (map (\<lambda>p. if fst p = k then (fst p, (snd p)\<lparr>examples := examples (snd p) @ vs\<rparr>) else p) am) k' =
     (if k' = k then map_option (\<lambda>m. m\<lparr>examples := examples m @ vs\<rparr>) (map_of am k) else map_of am k')"
  by (induction am) auto

lemma map_of_snoc:
  "map_of am k = None \<Longrightarrow> map_of (am @ [(k, m)]) k' = (if k' = k then Some m else map_of am k')"
  by (induction am) auto

lemma named_push:
  "named am \<Longrightarrow>
   named (map (\<lambda>p. if fst p = k then (fst p, (snd p)\<lparr>examples := examples (snd p) @ vs\<rparr>) else p) am)"
  by (induction am) (simp_all add: named_def)

lemma pushExamples_models:
  assumes "pushExamples k vs am1 = Inr am2"
  shows "(\<forall>k'. k' \<noteq> k \<longrightarrow> map_of am2 k' = map_of am1 k') \<and>
         (\<exists>m1. map_of am1 k = Some m1 \<and> map_of am2 k = Some (m1\<lparr>examples := examples m1 @ vs\<rparr>)) \<and>
         (named am1 \<longrightarrow> named am2)"
proof -
  from assms have am2: "am2 = map (\<lambda>p. if fst p = k then (fst p, (snd p)\<lparr>examples := examples (snd p) @ vs\<rparr>) else p) am1"
    and own: "map_of am1 k \<noteq> None"
    by (simp_all add: pushExamples_def split: if_splits)
  from own obtain m1 where "map_of am1 k = Some m1" by blast
  then show ?thesis unfolding am2 by (simp add: map_of_push named_push)
qed

lemma ensureModel_models:
  assumes "ensureModel u rel k am = Inr am1"
  shows "(\<forall>k'. k' \<noteq> k \<longrightarrow> map_of am1 k' = map_of am k') \<and>
         (case map_of am k of
            Some m0 \<Rightarrow> map_of am1 k = Some m0
          | None \<Rightarrow> map_of am1 k = None \<or>
                    map_of am1 k = Some \<lparr>name = k, relation = rel, examples = []\<rparr>) \<and>
         (named am \<longrightarrow> named am1)"
proof (cases "hasModel u am k")
  case True
  with assms have "am1 = am" by (simp add: ensureModel_def)
  then show ?thesis by (simp split: option.splits)
next
  case False
  with assms have am1: "am1 = am @ [(k, \<lparr>name = k, relation = rel, examples = []\<rparr>)]" and "k \<noteq> ''length''"
    by (simp_all add: ensureModel_def split: if_splits)
  with False have none: "map_of am k = None" by (simp add: hasModel_def)
  then show ?thesis unfolding am1 by (simp add: map_of_snoc named_def del: map_of_append)
qed

lemma register_models:
  assumes e: "ensureModel u rel k am = Inr am1" and p: "pushExamples k vs am1 = Inr am2"
  shows "(\<forall>k'. k' \<noteq> k \<longrightarrow> map_of am2 k' = map_of am k') \<and>
         (\<exists>m. map_of am2 k = Some m \<and>
              relation m = (case map_of am k of Some m0 \<Rightarrow> relation m0 | None \<Rightarrow> rel) \<and>
              name m = (case map_of am k of Some m0 \<Rightarrow> name m0 | None \<Rightarrow> k)) \<and>
         (named am \<longrightarrow> named am2)"
proof -
  note E = ensureModel_models[OF e] and P = pushExamples_models[OF p]
  from P obtain m1 where m1: "map_of am1 k = Some m1"
    and m2: "map_of am2 k = Some (m1\<lparr>examples := examples m1 @ vs\<rparr>)" by blast
  have "relation m1 = (case map_of am k of Some m0 \<Rightarrow> relation m0 | None \<Rightarrow> rel) \<and>
        name m1 = (case map_of am k of Some m0 \<Rightarrow> name m0 | None \<Rightarrow> k)"
  proof (cases "map_of am k")
    case None
    with E m1 show ?thesis by auto
  next
    case (Some m0)
    with E m1 show ?thesis by simp
  qed
  with m2 have "\<exists>m. map_of am2 k = Some m \<and>
              relation m = (case map_of am k of Some m0 \<Rightarrow> relation m0 | None \<Rightarrow> rel) \<and>
              name m = (case map_of am k of Some m0 \<Rightarrow> name m0 | None \<Rightarrow> k)"
    by simp
  moreover from E P have "\<forall>k'. k' \<noteq> k \<longrightarrow> map_of am2 k' = map_of am k'" by simp
  moreover from E P have "named am \<longrightarrow> named am2" by blast
  ultimately show ?thesis by blast
qed

lemma inferDataType_models:
  assumes "inferDataType u v key am = Inr r"
  shows "(\<forall>k'. k' \<noteq> toCamelCase u key \<longrightarrow> map_of (snd r) k' = map_of am k') \<and>
         (if registers v
          then \<exists>m. map_of (snd r) (toCamelCase u key) = Some m \<and>
                 relation m = (case map_of am (toCamelCase u key) of
                                 Some m0 \<Rightarrow> relation m0 | None \<Rightarrow> relationOf v) \<and>
                 name m = (case map_of am (toCamelCase u key) of
                             Some m0 \<Rightarrow> name m0 | None \<Rightarrow> toCamelCase u key)
          else snd r = am) \<and>
         (named am \<longrightarrow> named (snd r))"
proof (cases v)
  case (JArr xs)
  show ?thesis
  proof (cases "xs \<noteq> [] \<and> truthy (hd xs) \<and> typeof (hd xs) \<noteq> TObject")
    case True
    with assms JArr show ?thesis by (auto simp: registers_def)
  next
    case False
    with assms JArr obtain am1 am2 where
      1: "ensureModel u ''1:n'' (toCamelCase u key) am = Inr am1" and
      2: "pushExamples (toCamelCase u key) xs am1 = Inr am2" and r: "snd r = am2"
      by (auto split: sum.splits)
    have rel: "relationOf (JArr xs) = ''1:n''" by (simp add: relationOf_def)
    from register_models[OF 1 2] False r show ?thesis
      unfolding JArr rel by (simp add: registers_def)
  qed
next
  case (JObj kvs)
  with assms obtain am1 am2 where
      1: "ensureModel u ''1:1'' (toCamelCase u key) am = Inr am1" and
      2: "pushExamples (toCamelCase u key) [JObj kvs] am1 = Inr am2" and r: "snd r = am2"
      by (auto split: sum.splits)
  have rel: "relationOf (JObj kvs) = ''1:1''" by (simp add: relationOf_def)
  from register_models[OF 1 2] r show ?thesis
    unfolding JObj rel by (simp add: registers_def)
qed (use assms in \<open>auto simp: registers_def split: if_splits\<close>)

lemma relation_after:
  "visitEntries u (b, am) obs = Inr (b', am') \<Longrightarrow> unspecial b \<Longrightarrow>
   (case map_of am k of
      Some m0 \<Rightarrow> (\<exists>m. map_of am' k = Some m \<and> relation m = relation m0 \<and> name m = name m0)
    | None \<Rightarrow>
        (case [kv\<leftarrow>obs. toCamelCase u (fst kv) = k \<and> registers (snd kv)] of
           [] \<Rightarrow> map_of am' k = None
         | kv # rest \<Rightarrow> (\<exists>m. map_of am' k = Some m \<and> relation m = relationOf (snd kv) \<and> name m = k)))"
proof (induction obs arbitrary: b am)
  case Nil
  then show ?case by (auto split: option.splits)
next
  case (Cons kv obs)
  from Cons.prems(1) obtain b1 am1 where
    1: "visitEntry u (b, am) kv = Inr (b1, am1)" and 2: "visitEntries u (b1, am1) obs = Inr (b', am')"
    by (auto split: sum.splits)
  from visitEntry_unspecial[OF Cons.prems(2) 1] have inv1: "unspecial b1" .
  note IH = Cons.IH[OF 2 inv1]
  from 1 obtain r where r: "inferDataType u (snd kv) (fst kv) am = Inr r" and am1: "am1 = snd r"
    by (auto simp: visitEntry_unguarded[OF Cons.prems(2)] split: sum.splits)
  note step = inferDataType_models[OF r, folded am1]
  show ?case
  proof (cases "map_of am k")
    case (Some m0)
    with step obtain m1 where "map_of am1 k = Some m1" "relation m1 = relation m0" "name m1 = name m0"
      by (cases "k = toCamelCase u (fst kv)"; cases "registers (snd kv)") auto
    with IH Some show ?thesis by simp
  next
    case None
    show ?thesis
    proof (cases "toCamelCase u (fst kv) = k \<and> registers (snd kv)")
      case True
      with step None obtain m1 where "map_of am1 k = Some m1" "relation m1 = relationOf (snd kv)" "name m1 = k"
        by auto
      with IH None True show ?thesis by simp
    next
      case False
      with step None have "map_of am1 k = None"
        by (cases "k = toCamelCase u (fst kv)") auto
      with IH None False show ?thesis by auto
    qed
  qed
qed

lemma visitEntries_named:
  "visitEntries u (b, am) obs = Inr (b', am') \<Longrightarrow> unspecial b \<Longrightarrow> named am \<Longrightarrow> named am'"
proof (induction obs arbitrary: b am)
  case Nil
  then show ?case by simp
next
  case (Cons kv obs)
  from Cons.prems(1) obtain b1 am1 where
    1: "visitEntry u (b, am) kv = Inr (b1, am1)" and 2: "visitEntries u (b1, am1) obs = Inr (b', am')"
    by (auto split: sum.splits)
  from 1 obtain r where r: "inferDataType u (snd kv) (fst kv) am = Inr r" and am1: "am1 = snd r"
    by (auto simp: visitEntry_unguarded[OF Cons.prems(2)] split: sum.splits)
  from inferDataType_models[OF r] Cons.prems(3) am1 have "named am1" by simp
  from Cons.IH[OF 2 visitEntry_unspecial[OF Cons.prems(2) 1] this] show ?case .
qed

lemma relationOf_cases: "relationOf v = ''1:n'' \<or> relationOf v = ''1:1''"
  by (cases v) (simp_all add: relationOf_def)

text \<open>
  Claim C2, as amended. Within one job the cardinality of the association of a field
  (a camel-cased key) is the one of the first observation that registers it, in the
  order of the records and their entries: an object registers a one-to-one association,
  an array that is not collapsed to a string a one-to-many association, and a later
  observation of the other shape adds its examples and leaves the relation as it is. The
  returned descriptor lists exactly one model of that name, under \<^verbatim>\<open>"1:n"\<close> or under
  \<^verbatim>\<open>"1:1"\<close> accordingly. So a field that is an object in every record that has it is
  one-to-one; a field that is somewhere an array of objects is one-to-many exactly when
  the first observation that registers it is an array.
\<close>

theorem cardinality_first_registration:
  assumes run: "generateSequelizeModel u modelName exs = Inr out"
    and obs: "allEntries exs = Inr obs"
    and first: "[kv\<leftarrow>obs. toCamelCase u (fst kv) = k \<and> registers (snd kv)] = kv # rest"
  shows "\<exists>m. name m = k \<and> relation m = relationOf (snd kv) \<and>
             m \<in> set (if relationOf (snd kv) = ''1:n''
                       then assoc_1n (hd (snd out)) else assoc_11 (hd (snd out))) \<and>
             (\<forall>m' \<in> set (assoc_1n (hd (snd out)) @ assoc_11 (hd (snd out))). name m' = k \<longrightarrow> m' = m)"
proof -
  from run obtain st otherModels where
    st: "visitExamples u (emptyBody, []) exs = Inr st" and
    "map (\<lambda>p. generateSequelizeModel u (toCamelCase u (fst p)) (examples (snd p))) (ownEntries (snd st))
       = map Inr otherModels" and
    "fst out = (modelName, finalBody (fst st)) # concat (map fst otherModels)" and
    infos: "snd out =
       \<lparr>model = toCamelCase u modelName,
        assoc_1n = filter (\<lambda>m. relation m = ''1:n'') (map snd (ownEntries (snd st))),
        assoc_11 = filter (\<lambda>m. relation m = ''1:1'') (map snd (ownEntries (snd st)))\<rparr>
       # concat (map snd otherModels)"
    by (rule generateSequelizeModel_Inr)
  from visitExamples_flat[OF st] obs have
    fold: "visitEntries u (emptyBody, []) obs = Inr (fst st, snd st)" by auto
  from relation_after[OF fold unspecial_empty, of k] first obtain m where
    m: "map_of (snd st) k = Some m" "relation m = relationOf (snd kv)" "name m = k"
    by auto
  from visitEntries_held[OF fold] have d: "distinct (map fst (snd st))" by simp
  from visitEntries_named[OF fold unspecial_empty] have n: "named (snd st)" by (simp add: named_def)
  from m(1) have mem: "(k, m) \<in> set (snd st)" by (rule map_of_SomeD)
  then have in_values: "m \<in> set (map snd (ownEntries (snd st)))"
    by (force simp: set_ownEntries)
  with m(2) relationOf_cases[of "snd kv"]
  have "m \<in> set (if relationOf (snd kv) = ''1:n''
                       then assoc_1n (hd (snd out)) else assoc_11 (hd (snd out)))"
    by (auto simp: infos)
  moreover have "m' = m"
    if "m' \<in> set (assoc_1n (hd (snd out)) @ assoc_11 (hd (snd out)))" and "name m' = k" for m'
  proof -
    from that(1) obtain k' where k': "(k', m') \<in> set (snd st)"
      by (auto simp: infos set_ownEntries)
    with n have "name m' = k'" by (auto simp: named_def list_all_iff)
    with that(2) k' have "(k, m') \<in> set (snd st)" by simp
    with d have "map_of (snd st) k = Some m'" by (rule map_of_is_SomeI)
    with m(1) show ?thesis by simp
  qed
  ultimately show ?thesis using m(2,3) by blast
qed

text \<open>An array of objects first, an object second: the association is one-to-many.\<close>

lemma orders_run:
  "generateSequelizeModel sampleHost ''user''
     [JObj [(''orders'', JArr [JObj [(''sku'', JStr ''A'')]])],
      JObj [(''orders'', JObj [(''sku'', JStr ''B'')])]] =
   Inr ([(''user'', []),
         (''orders'', [(''sku'', \<lparr>type' = Some ''DataTypes.STRING'', field = ''sku''\<rparr>)])],
        [\<lparr>model = ''user'',
          assoc_1n = [\<lparr>name = ''orders'', relation = ''1:n'',
                       examples = [JObj [(''sku'', JStr ''A'')], JObj [(''sku'', JStr ''B'')]]\<rparr>],
          assoc_11 = []\<rparr>,
         \<lparr>model = ''orders'', assoc_1n = [], assoc_11 = []\<rparr>])"
  by code_simp

theorem cardinality_first_registration_witness:
  "allEntries [JObj [(''orders'', JArr [JObj [(''sku'', JStr ''A'')]])],
               JObj [(''orders'', JObj [(''sku'', JStr ''B'')])]] =
     Inr [(''orders'', JArr [JObj [(''sku'', JStr ''A'')]]), (''orders'', JObj [(''sku'', JStr ''B'')])] \<and>
   [kv\<leftarrow>[(''orders'', JArr [JObj [(''sku'', JStr ''A'')]]), (''orders'', JObj [(''sku'', JStr ''B'')])].
      toCamelCase sampleHost (fst kv) = ''orders'' \<and> registers (snd kv)] =
     (''orders'', JArr [JObj [(''sku'', JStr ''A'')]]) # [(''orders'', JObj [(''sku'', JStr ''B'')])] \<and>
   (\<exists>m. name m = ''orders'' \<and> relation m = ''1:n'' \<and>
        m \<in> set [\<lparr>name = ''orders'', relation = ''1:n'',
                     examples = [JObj [(''sku'', JStr ''A'')], JObj [(''sku'', JStr ''B'')]]\<rparr>])"
proof -
  have obs: "allEntries [JObj [(''orders'', JArr [JObj [(''sku'', JStr ''A'')]])],
               JObj [(''orders'', JObj [(''sku'', JStr ''B'')])]] =
     Inr [(''orders'', JArr [JObj [(''sku'', JStr ''A'')]]), (''orders'', JObj [(''sku'', JStr ''B'')])]"
    by simp
  have first: "[kv\<leftarrow>[(''orders'', JArr [JObj [(''sku'', JStr ''A'')]]), (''orders'', JObj [(''sku'', JStr ''B'')])].
      toCamelCase sampleHost (fst kv) = ''orders'' \<and> registers (snd kv)] =
     (''orders'', JArr [JObj [(''sku'', JStr ''A'')]]) # [(''orders'', JObj [(''sku'', JStr ''B'')])]"
    by (simp add: sampleHost_def registers_def)
  have rel: "relationOf (snd (''orders'', JArr [JObj [(''sku'', JStr ''A'')]])) = ''1:n''"
    by (simp add: relationOf_def)
  from cardinality_first_registration[OF orders_run obs first]
  have "\<exists>m. name m = ''orders'' \<and> relation m = ''1:n'' \<and>
        m \<in> set [\<lparr>name = ''orders'', relation = ''1:n'',
                     examples = [JObj [(''sku'', JStr ''A'')], JObj [(''sku'', JStr ''B'')]]\<rparr>]"
    unfolding rel by auto
  with obs first show ?thesis by (intro conjI)
qed

text \<open>
  Claim C2 as stated fails: the field \<^verbatim>\<open>a\<close> holds an array of objects in the second
  record, yet its association is one-to-one, because the first record registered it with
  an object. With the two records exchanged it is one-to-many: the cardinality depends
  on the order of the records.
\<close>

theorem cardinality_depends_on_order:
  "generateSequelizeModel sampleHost ''user''
     [JObj [(''a'', JObj [(''x'', JNum 1)])], JObj [(''a'', JArr [JObj [(''x'', JNum 2)]])]] =
   Inr ([(''user'', []),
         (''a'', [(''x'', \<lparr>type' = Some ''DataTypes.INTEGER'', field = ''x''\<rparr>)])],
        [\<lparr>model = ''user'', assoc_1n = [],
          assoc_11 = [\<lparr>name = ''a'', relation = ''1:1'',
                       examples = [JObj [(''x'', JNum 1)], JObj [(''x'', JNum 2)]]\<rparr>]\<rparr>,
         \<lparr>model = ''a'', assoc_1n = [], assoc_11 = []\<rparr>]) \<and>
   generateSequelizeModel sampleHost ''user''
     [JObj [(''a'', JArr [JObj [(''x'', JNum 2)]])], JObj [(''a'', JObj [(''x'', JNum 1)])]] =
   Inr ([(''user'', []),
         (''a'', [(''x'', \<lparr>type' = Some ''DataTypes.INTEGER'', field = ''x''\<rparr>)])],
        [\<lparr>model = ''user'',
          assoc_1n = [\<lparr>name = ''a'', relation = ''1:n'',
                       examples = [JObj [(''x'', JNum 2)], JObj [(''x'', JNum 1)]]\<rparr>],
          assoc_11 = []\<rparr>,
         \<lparr>model = ''a'', assoc_1n = [], assoc_11 = []\<rparr>])"
  by code_simp

subsection \<open>Termination and the depth of the recursion\<close>

lemma generateSequelizeModel_terminates: "generateSequelizeModel_dom (u, modelName, exs)"
proof -
  have "All generateSequelizeModel_dom"
  proof (rule "generateSequelizeModel.termination"[of "measure (\<lambda>(u, modelName, exs). batchSize exs)"])
    show "wf (measure (\<lambda>(u, modelName, exs). batchSize exs))" by simp
  next
    fix u :: host and modelName :: string and exs st p
    assume "visitExamples u (emptyBody, []) exs = Inr st" and "p \<in> set (ownEntries (snd st))"
    then show "((u, toCamelCase u (fst p), examples (snd p)), (u, modelName, exs))
        \<in> measure (\<lambda>(u, modelName, exs). batchSize exs)"
      using child_smaller[of u exs "fst st" "snd st" "fst p" "snd p"] by simp
  qed
  then show ?thesis by simp
qed

lemma maxList_ge: "x \<in> set xs \<Longrightarrow> x \<le> maxList xs"
  by (induction xs) auto

lemma maxList_le: "(\<And>x. x \<in> set xs \<Longrightarrow> x \<le> n) \<Longrightarrow> maxList xs \<le> n"
  by (induction xs) auto

lemma nesting_element: "x \<in> set xs \<Longrightarrow> Suc (nesting x) \<le> nesting (JArr xs)"
  using maxList_ge[of "nesting x" "map nesting xs"] by simp

lemma nesting_member: "(k, v) \<in> set kvs \<Longrightarrow> Suc (nesting v) \<le> nesting (JObj kvs)"
  using maxList_ge[of "nesting v" "map (\<lambda>(k, v). nesting v) kvs"] by force

lemma entriesOf_nesting:
  assumes "entriesOf ex = Inr kvs" and "(k, v) \<in> set kvs" and "registers v"
  shows "Suc (nesting v) \<le> nesting ex"
proof (cases ex)
  case (JStr s)
  with assms(1,2) have "v \<in> set (map (\<lambda>c. JStr [c]) s)" by (auto dest: set_zip_rightD)
  with assms(3) show ?thesis by (auto simp: registers_def)
next
  case (JArr xs)
  with assms(1,2) have "v \<in> set xs" by (auto dest: set_zip_rightD)
  then show ?thesis unfolding JArr by (rule nesting_element)
next
  case (JObj ps)
  with assms(1,2) have "(k, v) \<in> set ps" by simp
  then show ?thesis unfolding JObj by (rule nesting_member)
qed (use assms in auto)

lemma held_push:
  "held (map (\<lambda>p. if fst p = k then (fst p, (snd p)\<lparr>examples := examples (snd p) @ vs\<rparr>) else p) am)
     \<subseteq> held am \<union> set vs"
  by (induction am) (auto simp: held_def)

lemma register_held:
  assumes e: "ensureModel u rel k am = Inr am1" and p: "pushExamples k vs am1 = Inr am2"
  shows "held am2 \<subseteq> held am \<union> set vs"
proof -
  from e have "am1 = am \<or> am1 = am @ [(k, \<lparr>name = k, relation = rel, examples = []\<rparr>)]"
    by (auto simp: ensureModel_def split: if_splits)
  then have "held am1 = held am" by (fastforce simp: held_def)
  moreover from p have "held am2 \<subseteq> held am1 \<union> set vs"
    using held_push[of k vs am1] by (simp add: pushExamples_def split: if_splits)
  ultimately show ?thesis by simp
qed

lemma inferDataType_shallow:
  assumes r: "inferDataType u v key am = Inr r" and inv: "shallow d am"
    and v: "registers v \<Longrightarrow> Suc (nesting v) \<le> d"
  shows "shallow d (snd r)"
proof (cases "registers v")
  case False
  with inferDataType_models[OF r] inv show ?thesis by simp
next
  case True
  note bound = v[OF True]
  show ?thesis
  proof (cases v)
    case (JArr xs)
    with r True obtain am1 am2 where
      1: "ensureModel u ''1:n'' (toCamelCase u key) am = Inr am1" and
      2: "pushExamples (toCamelCase u key) xs am1 = Inr am2" and am2: "snd r = am2"
      by (auto simp: registers_def split: sum.splits if_splits)
    have "Suc (nesting e) \<le> d" if "e \<in> held am2" for e
    proof -
      from that register_held[OF 1 2] consider "e \<in> held am" | "e \<in> set xs" by blast
      then show ?thesis
      proof cases
        case 1
        with inv show ?thesis by (simp add: shallow_def)
      next
        case 2
        from nesting_element[OF 2] bound show ?thesis unfolding JArr by simp
      qed
    qed
    moreover from bound have "2 \<le> d" unfolding JArr by simp
    ultimately show ?thesis by (simp add: shallow_def am2)
  next
    case (JObj kvs)
    with r obtain am1 am2 where
      1: "ensureModel u ''1:1'' (toCamelCase u key) am = Inr am1" and
      2: "pushExamples (toCamelCase u key) [JObj kvs] am1 = Inr am2" and am2: "snd r = am2"
      by (auto split: sum.splits)
    have "Suc (nesting e) \<le> d" if "e \<in> held am2" for e
    proof -
      from that register_held[OF 1 2] consider "e \<in> held am" | "e = JObj kvs" by auto
      then show ?thesis
      proof cases
        case 1
        with inv show ?thesis by (simp add: shallow_def)
      next
        case 2
        with bound show ?thesis unfolding JObj by simp
      qed
    qed
    moreover from bound have "2 \<le> d" unfolding JObj by simp
    ultimately show ?thesis by (simp add: shallow_def am2)
  qed (use True in \<open>simp_all add: registers_def\<close>)
qed

lemma visitEntry_shallow:
  assumes "visitEntry u (b, am) kv = Inr (b', am')" and "shallow d am"
    and "registers (snd kv) \<Longrightarrow> Suc (nesting (snd kv)) \<le> d"
  shows "shallow d am'"
proof (cases "case bodyGet u b (toCamelCase u (fst kv)) of
                Some (Some t) \<Rightarrow> t \<in> set specialTypes | _ \<Rightarrow> False")
  case True
  with assms(1) have "am' = am" by (simp add: visitEntry_def Let_def)
  with assms(2) show ?thesis by simp
next
  case False
  with assms(1) obtain r where r: "inferDataType u (snd kv) (fst kv) am = Inr r" and "am' = snd r"
    by (auto simp: visitEntry_def Let_def split: sum.splits)
  with inferDataType_shallow[OF r assms(2,3)] show ?thesis by simp
qed

lemma visitEntries_shallow:
  "visitEntries u (b, am) kvs = Inr (b', am') \<Longrightarrow> shallow d am \<Longrightarrow>
   (\<And>k v. (k, v) \<in> set kvs \<Longrightarrow> registers v \<Longrightarrow> Suc (nesting v) \<le> d) \<Longrightarrow> shallow d am'"
proof (induction kvs arbitrary: b am)
  case Nil
  then show ?case by simp
next
  case (Cons kv kvs)
  from Cons.prems(1) obtain b1 am1 where
    1: "visitEntry u (b, am) kv = Inr (b1, am1)" and 2: "visitEntries u (b1, am1) kvs = Inr (b', am')"
    by (auto split: sum.splits)
  have "shallow d am1"
    using 1 Cons.prems(2)
  proof (rule visitEntry_shallow)
    assume "registers (snd kv)"
    with Cons.prems(3)[of "fst kv" "snd kv"] show "Suc (nesting (snd kv)) \<le> d" by simp
  qed
  with 2 show ?case
  proof (rule Cons.IH)
    fix k v assume "(k, v) \<in> set kvs" "registers v"
    with Cons.prems(3)[of k v] show "Suc (nesting v) \<le> d" by simp
  qed
qed

lemma visitExamples_shallow:
  "visitExamples u (b, am) exs = Inr (b', am') \<Longrightarrow> shallow d am \<Longrightarrow>
   (\<And>ex. ex \<in> set exs \<Longrightarrow> nesting ex \<le> d) \<Longrightarrow> shallow d am'"
proof (induction exs arbitrary: b am)
  case Nil
  then show ?case by simp
next
  case (Cons ex exs)
  from Cons.prems(1) obtain kvs b1 am1 where
    0: "entriesOf ex = Inr kvs" and
    1: "visitEntries u (b, am) kvs = Inr (b1, am1)" and
    2: "visitExamples u (b1, am1) exs = Inr (b', am')"
    by (auto split: sum.splits)
  have "shallow d am1"
    using 1 Cons.prems(2)
  proof (rule visitEntries_shallow)
    fix k v assume "(k, v) \<in> set kvs" "registers v"
    from entriesOf_nesting[OF 0 this] Cons.prems(3)[of ex] show "Suc (nesting v) \<le> d" by simp
  qed
  with 2 show ?case
  proof (rule Cons.IH)
    fix e assume "e \<in> set exs"
    with Cons.prems(3)[of e] show "nesting e \<le> d" by simp
  qed
qed

lemma child_shallower:
  assumes "visitExamples u (emptyBody, []) exs = Inr st" and "p \<in> set (ownEntries (snd st))"
  shows "2 \<le> batchNesting exs \<and> Suc (batchNesting (examples (snd p))) \<le> batchNesting exs"
proof -
  have "shallow (batchNesting exs) (snd st)"
  proof (rule visitExamples_shallow)
    show "visitExamples u (emptyBody, []) exs = Inr (fst st, snd st)" using assms(1) by simp
    show "shallow (batchNesting exs) []" by (simp add: shallow_def held_def)
    fix ex assume "ex \<in> set exs"
    then show "nesting ex \<le> batchNesting exs" by (simp add: batchNesting_def maxList_ge)
  qed
  moreover from assms(2) have mem: "p \<in> set (snd st)" by (simp add: set_ownEntries)
  ultimately have two: "2 \<le> batchNesting exs"
    and each: "\<And>e. e \<in> set (examples (snd p)) \<Longrightarrow> Suc (nesting e) \<le> batchNesting exs"
    by (auto simp: shallow_def held_def)
  have "batchNesting (examples (snd p)) \<le> batchNesting exs - 1"
    unfolding batchNesting_def[of "examples (snd p)"]
  proof (rule maxList_le)
    fix x assume "x \<in> set (map nesting (examples (snd p)))"
    then obtain e where "e \<in> set (examples (snd p))" "x = nesting e" by auto
    with each[of e] show "x \<le> batchNesting exs - 1" by simp
  qed
  with two show ?thesis by simp
qed

lemma callDepth_bound: "callDepth u modelName exs \<le> max 1 (batchNesting exs)"
proof (induction u modelName exs rule: callDepth.induct)
  case (1 u modelName exs)
  show ?case
  proof (cases "visitExamples u (emptyBody, []) exs")
    case (Inl e)
    then show ?thesis by (subst callDepth.simps) simp
  next
    case (Inr st)
    let ?cs = "visited (\<lambda>p. \<not> isl (generateSequelizeModel u (toCamelCase u (fst p)) (examples (snd p))))
                 (ownEntries (snd st))"
    have eq: "callDepth u modelName exs =
        Suc (maxList (map (\<lambda>p. callDepth u (toCamelCase u (fst p)) (examples (snd p))) ?cs))"
      by (subst callDepth.simps) (simp add: Inr)
    show ?thesis
    proof (cases "?cs = []")
      case True
      with eq show ?thesis by simp
    next
      case False
      then obtain q where q: "q \<in> set ?cs" by (cases ?cs) auto
      from set_visited[THEN subsetD, OF q] have "q \<in> set (ownEntries (snd st))" .
      from child_shallower[OF Inr this] have two: "2 \<le> batchNesting exs" by simp
      have "maxList (map (\<lambda>p. callDepth u (toCamelCase u (fst p)) (examples (snd p))) ?cs)
              \<le> batchNesting exs - 1"
      proof (rule maxList_le)
        fix x assume "x \<in> set (map (\<lambda>p. callDepth u (toCamelCase u (fst p)) (examples (snd p))) ?cs)"
        then obtain p where p: "p \<in> set ?cs"
          and x: "x = callDepth u (toCamelCase u (fst p)) (examples (snd p))" by auto
        from set_visited[THEN subsetD, OF p] have "p \<in> set (ownEntries (snd st))" .
        from child_shallower[OF Inr this]
        have "Suc (batchNesting (examples (snd p))) \<le> batchNesting exs" by simp
        with "1.IH"[OF Inr p] two x show "x \<le> batchNesting exs - 1" by simp
      qed
      with eq two show ?thesis by simp
    qed
  qed
qed

text \<open>
  Claim C8, as amended. For every batch of examples the decomposition terminates: every
  argument is in the domain of the recursion, since the examples handed to a child job
  are together strictly smaller than the batch of its parent, so no cycle or depth guard
  is needed. The depth of the recursion is at least one and at most the nesting depth of
  the deepest record (or one, for a batch of scalars or no record at all).
\<close>

theorem decomposition_terminates:
  "generateSequelizeModel_dom (u, modelName, exs) \<and>
   1 \<le> callDepth u modelName exs \<and>
   callDepth u modelName exs \<le> max 1 (batchNesting exs)"
proof -
  have "1 \<le> callDepth u modelName exs"
    by (subst callDepth.simps) (simp split: sum.splits)
  with generateSequelizeModel_terminates callDepth_bound show ?thesis by blast
qed

text \<open>The bound at a record with one nested object: depth two, nesting two.\<close>

theorem decomposition_terminates_witness:
  "generateSequelizeModel_dom (sampleHost, ''user'', [JObj [(''a'', JObj [(''b'', JNum 1)])]]) \<and>
   1 \<le> callDepth sampleHost ''user'' [JObj [(''a'', JObj [(''b'', JNum 1)])]] \<and>
   callDepth sampleHost ''user'' [JObj [(''a'', JObj [(''b'', JNum 1)])]]
     \<le> max 1 (batchNesting [JObj [(''a'', JObj [(''b'', JNum 1)])]])"
  by (rule decomposition_terminates)

text \<open>
  Claim C8 as stated says the depth of the recursion equals the nesting depth of the
  input. An array of scalars is a level of nesting and starts no job: the first batch
  below has nesting depth two and recursion depth one, while the second, of the same
  nesting depth, has recursion depth two.
\<close>

theorem depth_below_nesting:
  "callDepth sampleHost ''user'' [JObj [(''id'', JNum 1), (''tags'', JArr [JStr ''a'', JStr ''b''])]] = 1 \<and>
   batchNesting [JObj [(''id'', JNum 1), (''tags'', JArr [JStr ''a'', JStr ''b''])]] = 2 \<and>
   callDepth sampleHost ''user'' [JObj [(''a'', JObj [(''b'', JNum 1)])]] = 2 \<and>
   batchNesting [JObj [(''a'', JObj [(''b'', JNum 1)])]] = 2"
  by code_simp

subsection \<open>Models of the same name\<close>

lemma map_of_assign:
  "k' \<noteq> ''__proto__'' \<Longrightarrow> map_of (assign k v ps) k' = (if k' = k then Some v else map_of ps k')"
  by (simp add: assign_def map_of_upsert)

lemma map_of_fold_assign:
  "k \<noteq> ''__proto__'' \<Longrightarrow>
   map_of (fold (\<lambda>p. assign (fst p) (snd p)) xs ps) k =
     (case map_of (rev xs) k of Some v \<Rightarrow> Some v | None \<Rightarrow> map_of ps k)"
proof (induction xs arbitrary: ps)
  case Nil
  then show ?case by simp
next
  case (Cons x xs)
  then show ?case
    by (cases x) (auto simp: map_of_assign map_add_def split: option.splits)
qed

lemma fold_assign_models:
  "fold (\<lambda>m. assign (model m) m) ms ps = fold (\<lambda>p. assign (fst p) (snd p)) (map (\<lambda>m. (model m, m)) ms) ps"
  by (induction ms arbitrary: ps) auto

lemma assemble_fold:
  "assemble u inputs (printed, assoc) = (printed', Inr assoc') \<Longrightarrow>
   printed' = printed @ concat (map (\<lambda>input. fst (createModel u (fst input) (snd input))) inputs) \<and>
   assoc' = fold (\<lambda>p. assign (fst p) (snd p)) (assignments u inputs) assoc"
proof (induction inputs arbitrary: printed assoc)
  case Nil
  then show ?case by (simp add: assignments_def)
next
  case (Cons input inputs)
  from Cons.prems obtain out where
    out: "generateSequelizeModel u (fst input) (snd input) = Inr out"
    by (cases "generateSequelizeModel u (fst input) (snd input)") (auto simp: createModel_def)
  with Cons.prems have
    "assemble u inputs
       (printed @ fst (createModel u (fst input) (snd input)),
        fold (\<lambda>m. assign (model m) m) (tl (snd out)) (assign (fst input) (hd (snd out)) assoc))
     = (printed', Inr assoc')"
    by (simp add: createModel_def)
  from Cons.IH[OF this] out show ?case
    by (simp add: assignments_def fold_assign_models)
qed

text \<open>
  Claim C7, as amended. When the script ends without an exception, the console holds the
  two progress lines of each input and nothing else, and every name of the assembled
  associations is bound to the descriptor stored under it last. Two entities of the same
  name are therefore resolved silently, the later one replacing the earlier, whatever
  their associations are; no diagnostic is written and no discard is logged.
\<close>

theorem collisions_overwrite_silently:
  assumes "assemble u inputs ([], []) = (printed, Inr assoc)"
  shows "printed = concat (map (\<lambda>input.
                  [[CHR 0x0A] @ ''Found '' @ showNat (length (snd input)) @ '' examples for model: '' @ fst input,
                   ''Generating model: '' @ fst input]) inputs) \<and>
         (\<forall>k. k \<noteq> ''__proto__'' \<longrightarrow> map_of assoc k = map_of (rev (assignments u inputs)) k)"
proof -
  from assemble_fold[OF assms] have
    printed: "printed = concat (map (\<lambda>input. fst (createModel u (fst input) (snd input))) inputs)" and
    assoc: "assoc = fold (\<lambda>p. assign (fst p) (snd p)) (assignments u inputs) []"
    by simp_all
  from printed have "printed = concat (map (\<lambda>input.
                  [[CHR 0x0A] @ ''Found '' @ showNat (length (snd input)) @ '' examples for model: '' @ fst input,
                   ''Generating model: '' @ fst input]) inputs)"
    by (simp add: createModel_def)
  moreover have "map_of assoc k = map_of (rev (assignments u inputs)) k" if "k \<noteq> ''__proto__''" for k
    unfolding assoc using map_of_fold_assign[OF that, of "assignments u inputs" "[]"]
    by (simp split: option.splits)
  ultimately show ?thesis by blast
qed

text \<open>
  Two inputs that both discover an entity \<^verbatim>\<open>address\<close>, with a field \<^verbatim>\<open>tags\<close> that is an
  object in the first and an array of objects in the second.
\<close>

lemma collision_run:
  "assemble sampleHost
     [(''user'', [JObj [(''address'', JObj [(''tags'', JObj [(''x'', JNum 1)])])]]),
      (''shop'', [JObj [(''address'', JObj [(''tags'', JArr [JObj [(''x'', JNum 1)]])])]])]
     ([], []) =
   ([[CHR 0x0A] @ ''Found 1 examples for model: user'', ''Generating model: user'',
     [CHR 0x0A] @ ''Found 1 examples for model: shop'', ''Generating model: shop''],
    Inr [(''user'',
          \<lparr>model = ''user'', assoc_1n = [],
            assoc_11 = [\<lparr>name = ''address'', relation = ''1:1'',
                         examples = [JObj [(''tags'', JObj [(''x'', JNum 1)])]]\<rparr>]\<rparr>),
         (''address'',
          \<lparr>model = ''address'',
            assoc_1n = [\<lparr>name = ''tags'', relation = ''1:n'', examples = [JObj [(''x'', JNum 1)]]\<rparr>],
            assoc_11 = []\<rparr>),
         (''tags'', \<lparr>model = ''tags'', assoc_1n = [], assoc_11 = []\<rparr>),
         (''shop'',
          \<lparr>model = ''shop'', assoc_1n = [],
            assoc_11 = [\<lparr>name = ''address'', relation = ''1:1'',
                         examples = [JObj [(''tags'', JArr [JObj [(''x'', JNum 1)]])]]\<rparr>]\<rparr>)])"
  by code_simp

theorem collisions_overwrite_silently_witness:
  "map_of
     [(''user'',
          \<lparr>model = ''user'', assoc_1n = [],
            assoc_11 = [\<lparr>name = ''address'', relation = ''1:1'',
                         examples = [JObj [(''tags'', JObj [(''x'', JNum 1)])]]\<rparr>]\<rparr>),
         (''address'',
          \<lparr>model = ''address'',
            assoc_1n = [\<lparr>name = ''tags'', relation = ''1:n'', examples = [JObj [(''x'', JNum 1)]]\<rparr>],
            assoc_11 = []\<rparr>),
         (''tags'', \<lparr>model = ''tags'', assoc_1n = [], assoc_11 = []\<rparr>),
         (''shop'',
          \<lparr>model = ''shop'', assoc_1n = [],
            assoc_11 = [\<lparr>name = ''address'', relation = ''1:1'',
                         examples = [JObj [(''tags'', JArr [JObj [(''x'', JNum 1)]])]]\<rparr>]\<rparr>)]
     ''address'' =
   map_of (rev (assignments sampleHost
     [(''user'', [JObj [(''address'', JObj [(''tags'', JObj [(''x'', JNum 1)])])]]),
      (''shop'', [JObj [(''address'', JObj [(''tags'', JArr [JObj [(''x'', JNum 1)]])])]])]))
     ''address''"
proof -
  have neq: "''address'' \<noteq> ''__proto__''" by simp
  from collisions_overwrite_silently[OF collision_run, THEN conjunct2, rule_format, OF neq]
  show ?thesis .
qed

text \<open>
  Claim C7 as stated fails on these inputs: the first job returns \<^verbatim>\<open>address\<close> with a
  one-to-one association \<^verbatim>\<open>tags\<close>, the second with a one-to-many one. The script keeps
  the second descriptor, and its console shows the four progress lines only.
\<close>

theorem collision_not_reported:
  "generateSequelizeModel sampleHost ''user''
     [JObj [(''address'', JObj [(''tags'', JObj [(''x'', JNum 1)])])]] =
   Inr ([(''user'', []), (''address'', []),
         (''tags'', [(''x'', \<lparr>type' = Some ''DataTypes.INTEGER'', field = ''x''\<rparr>)])],
        [\<lparr>model = ''user'', assoc_1n = [],
           assoc_11 = [\<lparr>name = ''address'', relation = ''1:1'',
                        examples = [JObj [(''tags'', JObj [(''x'', JNum 1)])]]\<rparr>]\<rparr>,
         \<lparr>model = ''address'', assoc_1n = [],
           assoc_11 = [\<lparr>name = ''tags'', relation = ''1:1'', examples = [JObj [(''x'', JNum 1)]]\<rparr>]\<rparr>,
         \<lparr>model = ''tags'', assoc_1n = [], assoc_11 = []\<rparr>]) \<and>
   assemble sampleHost
     [(''user'', [JObj [(''address'', JObj [(''tags'', JObj [(''x'', JNum 1)])])]]),
      (''shop'', [JObj [(''address'', JObj [(''tags'', JArr [JObj [(''x'', JNum 1)]])])]])]
     ([], []) =
   ([[CHR 0x0A] @ ''Found 1 examples for model: user'', ''Generating model: user'',
     [CHR 0x0A] @ ''Found 1 examples for model: shop'', ''Generating model: shop''],
    Inr [(''user'',
          \<lparr>model = ''user'', assoc_1n = [],
            assoc_11 = [\<lparr>name = ''address'', relation = ''1:1'',
                         examples = [JObj [(''tags'', JObj [(''x'', JNum 1)])]]\<rparr>]\<rparr>),
         (''address'',
          \<lparr>model = ''address'',
            assoc_1n = [\<lparr>name = ''tags'', relation = ''1:n'', examples = [JObj [(''x'', JNum 1)]]\<rparr>],
            assoc_11 = []\<rparr>),
         (''tags'', \<lparr>model = ''tags'', assoc_1n = [], assoc_11 = []\<rparr>),
         (''shop'',
          \<lparr>model = ''shop'', assoc_1n = [],
            assoc_11 = [\<lparr>name = ''address'', relation = ''1:1'',
                         examples = [JObj [(''tags'', JArr [JObj [(''x'', JNum 1)]])]]\<rparr>]\<rparr>)])"
  by code_simp

subsection \<open>Keys that are no property names of an array\<close>

text \<open>
  Under a key that camel-cases to a name the array neither owns nor inherits, an array
  that is empty or starts with a falsy value or an object registers a one-to-many
  association with all its elements as examples.
\<close>

lemma nested_array_registered:
  assumes "xs = [] \<or> \<not> truthy (hd xs) \<or> typeof (hd xs) = TObject"
    and "map_of am (toCamelCase u key) = None"
    and "toCamelCase u key \<noteq> ''length''" and "toCamelCase u key \<noteq> ''__proto__''"
    and "\<not> arrayInherits u (toCamelCase u key)"
  shows "inferDataType u (JArr xs) key am =
           Inr (Some ''DataTypes.NESTED'',
                am @ [(toCamelCase u key,
                       \<lparr>name = toCamelCase u key, relation = ''1:n'', examples = xs\<rparr>)])"
proof -
  from assms(2-5) have 1: "ensureModel u ''1:n'' (toCamelCase u key) am =
      Inr (am @ [(toCamelCase u key, \<lparr>name = toCamelCase u key, relation = ''1:n'', examples = []\<rparr>)])"
    by (simp add: ensureModel_def hasModel_def)
  from assms(2) have "toCamelCase u key \<notin> fst ` set am" by (simp add: map_of_eq_None_iff)
  then have "map (\<lambda>p. if fst p = toCamelCase u key
                        then (fst p, (snd p)\<lparr>examples := examples (snd p) @ xs\<rparr>) else p) am = am"
    by (induction am) auto
  with assms(2,3) have 2: "pushExamples (toCamelCase u key) xs
      (am @ [(toCamelCase u key, \<lparr>name = toCamelCase u key, relation = ''1:n'', examples = []\<rparr>)]) =
      Inr (am @ [(toCamelCase u key, \<lparr>name = toCamelCase u key, relation = ''1:n'', examples = xs\<rparr>)])"
    by (simp add: pushExamples_def map_of_snoc del: map_of_append)
  from assms(1) 1 2 show ?thesis by auto
qed

text \<open>Under such a key neither the classifier nor the merger throws, whatever the value.\<close>

lemma plain_key_never_throws:
  assumes "toCamelCase u key \<noteq> ''length''" and "toCamelCase u key \<noteq> ''__proto__''"
    and "\<not> arrayInherits u (toCamelCase u key)"
  shows "\<exists>r. inferDataType u v key am = Inr r"
proof -
  have reg: "\<exists>am2. ensureModel u rel (toCamelCase u key) am = Inr am1 \<and>
                   pushExamples (toCamelCase u key) vs am1 = Inr am2"
    if "am1 = (if hasModel u am (toCamelCase u key) then am
               else am @ [(toCamelCase u key, \<lparr>name = toCamelCase u key, relation = rel, examples = []\<rparr>)])"
    for rel vs am1
  proof (cases "map_of am (toCamelCase u key)")
    case None
    with assms have "\<not> hasModel u am (toCamelCase u key)" by (simp add: hasModel_def)
    with that assms None show ?thesis
      by (simp add: ensureModel_def pushExamples_def map_of_snoc del: map_of_append)
  next
    case (Some m)
    with assms have "hasModel u am (toCamelCase u key)" by (simp add: hasModel_def)
    with that assms Some show ?thesis
      by (simp add: ensureModel_def pushExamples_def)
  qed
  show ?thesis
  proof (cases v)
    case (JArr xs)
    from reg[OF refl, of "''1:n''" xs] obtain am1 am2 where
      "ensureModel u ''1:n'' (toCamelCase u key) am = Inr am1"
      "pushExamples (toCamelCase u key) xs am1 = Inr am2" by blast
    then show ?thesis unfolding JArr by simp
  next
    case (JObj kvs)
    from reg[OF refl, of "''1:1''" "[JObj kvs]"] obtain am1 am2 where
      "ensureModel u ''1:1'' (toCamelCase u key) am = Inr am1"
      "pushExamples (toCamelCase u key) [JObj kvs] am1 = Inr am2" by blast
    then show ?thesis unfolding JObj by simp
  qed simp_all
qed

lemma plain_entry_never_throws:
  assumes "toCamelCase u key \<noteq> ''length''" and "toCamelCase u key \<noteq> ''__proto__''"
    and "\<not> arrayInherits u (toCamelCase u key)"
  shows "\<exists>st'. visitEntry u st (key, v) = Inr st'"
proof -
  from plain_key_never_throws[OF assms] obtain r where "inferDataType u v key (snd st) = Inr r"
    by blast
  then show ?thesis by (simp add: visitEntry_def Let_def)
qed

text \<open>
  A field never seen before whose name the object literal inherits (\<^verbatim>\<open>constructor\<close>,
  \<^verbatim>\<open>toString\<close>, ...) and whose value is \<^verbatim>\<open>null\<close> is stored without a type: the read
  \<^verbatim>\<open>body[camelCasedKey]\<close> yields the inherited function, which is truthy and has no
  \<^verbatim>\<open>type\<close>, so the placeholder \<^verbatim>\<open>"???"\<close> is not used.
\<close>

lemma inherited_field_has_no_type:
  assumes "objectInherits u (toCamelCase u key)" and "toCamelCase u key \<noteq> ''__proto__''"
    and "map_of (props b) (toCamelCase u key) = None" and "proto b = None"
  shows "visitEntry u (b, am) (key, JNull) =
           Inr (b\<lparr>props := props b @ [(toCamelCase u key, \<lparr>type' = None, field = key\<rparr>)]\<rparr>, am)"
  using assms by (simp add: visitEntry_def bodyGet_def bodySet_def upsert_def mergedType_def)

end
